theory Spec2Isabelle
  imports Main "HOL-Library.Word" "HOL-Library.AList" "HOL-Library.Sublist"
begin

section \<open>Common notions\<close>

text \<open>
  The classes of \<^verbatim>\<open>queue.ts\<close> (SerialQueue, ParalelQueue, OrderedQueue), the subclass
  QueueTrackerController of \<^verbatim>\<open>tracker.ts\<close> and StreamPiper of \<^verbatim>\<open>piper.ts\<close> are embedded
  as records of their fields with one function per method. An \<^verbatim>\<open>async\<close> method is cut
  at its \<^verbatim>\<open>await\<close>s: every piece that JavaScript runs without interruption is one
  function, and the scheduler is a list of events that says which piece runs next.
\<close>

datatype error = Error string

text \<open>A JavaScript promise of a value: settled at most once, the first \<^verbatim>\<open>resolve\<close> wins.\<close>

datatype 'a promise = Pending | Resolved 'a

definition resolve :: "'a promise \<Rightarrow> 'a \<Rightarrow> 'a promise" where
  "resolve p v = (case p of Pending \<Rightarrow> Resolved v | Resolved w \<Rightarrow> Resolved w)"

text \<open>\<^verbatim>\<open>Array.prototype.indexOf\<close>: the first index of the element, \<open>-1\<close> when absent.\<close>

fun indexOf :: "'a list \<Rightarrow> 'a \<Rightarrow> int" where
  "indexOf [] x = - 1"
| "indexOf (y # ys) x =
     (if y = x then 0 else (let i = indexOf ys x in if i < 0 then - 1 else i + 1))"

text \<open>\<^verbatim>\<open>xs.splice(index, 1)\<close> for an index the caller found with \<^verbatim>\<open>indexOf\<close>.\<close>

definition splice1 :: "'a list \<Rightarrow> int \<Rightarrow> 'a list" where
  "splice1 xs index = take (nat index) xs @ drop (nat index + 1) xs"

text \<open>\<^verbatim>\<open>xs.slice(0, e)\<close>: a negative end counts from the end of the array.\<close>

definition slice0 :: "'a list \<Rightarrow> int \<Rightarrow> 'a list" where
  "slice0 xs e = (if e < 0 then take (nat (int (length xs) + e)) xs else take (nat e) xs)"

section \<open>OrderedQueue\<close>

text \<open>
  The field \<^verbatim>\<open>waiting\<close> maps a ticket to its waiter. The waiter's promise outlives the
  entry (a caller of \<^verbatim>\<open>wait\<close> holds it), so the promises live in a store
  \<open>oq_promises\<close>, addressed by position, and the map keeps the address. \<open>oq_emitted\<close>
  logs the calls of \<^verbatim>\<open>this.emit\<close>.
\<close>

record OrderedQueue =
  oq_queue :: "string list"
  oq_waiting :: "string \<rightharpoonup> nat"
  oq_promises :: "bool promise list"
  oq_limit :: int
  oq_emitted :: "(string \<times> string) list"

definition OrderedQueue_new :: "int \<Rightarrow> error + OrderedQueue" where
  "OrderedQueue_new limit =
     (if limit < 1 then Inl (Error ''Limit cannot be less than 1.'')
      else Inr \<lparr>oq_queue = [], oq_waiting = Map.empty, oq_promises = [],
                oq_limit = limit, oq_emitted = []\<rparr>)"

definition inqueue :: "OrderedQueue \<Rightarrow> string \<Rightarrow> bool" where
  "inqueue q i = (i \<in> set (oq_queue q))"

definition active :: "OrderedQueue \<Rightarrow> string \<Rightarrow> bool" where
  "active q i = (let index = indexOf (oq_queue q) i in index > - 1 \<and> index < oq_limit q)"

text \<open>\<^verbatim>\<open>waiter.resolve(v)\<close> on the promise at address \<open>p\<close>.\<close>

definition resolve_at :: "'a promise list \<Rightarrow> nat \<Rightarrow> 'a \<Rightarrow> 'a promise list" where
  "resolve_at ps p v = (if p < length ps then ps[p := resolve (ps ! p) v] else ps)"

text \<open>The body of the loop of \<^verbatim>\<open>processQueue\<close>, for one ticket of the active slice.\<close>

definition processQueue_body :: "OrderedQueue \<Rightarrow> string \<Rightarrow> OrderedQueue" where
  "processQueue_body q i =
     (case oq_waiting q i of
        None \<Rightarrow> q
      | Some p \<Rightarrow> q\<lparr>oq_promises := resolve_at (oq_promises q) p True,
                     oq_emitted := oq_emitted q @ [(''active'', i)]\<rparr>)"

definition processQueue :: "OrderedQueue \<Rightarrow> OrderedQueue" where
  "processQueue q = foldl processQueue_body q (slice0 (oq_queue q) (oq_limit q))"

text \<open>\<^verbatim>\<open>enqueue\<close>; the second argument is the value \<^verbatim>\<open>randomUUID()\<close> returns.\<close>

definition enqueue :: "OrderedQueue \<Rightarrow> string \<Rightarrow> string \<times> OrderedQueue" where
  "enqueue q uuid =
     (let q1 = q\<lparr>oq_queue := oq_queue q @ [uuid]\<rparr>;
          q2 = q1\<lparr>oq_promises := oq_promises q1 @ [Pending],
                  oq_waiting := (oq_waiting q1)(uuid \<mapsto> length (oq_promises q1))\<rparr>
      in (uuid, processQueue q2))"

definition dequeue :: "OrderedQueue \<Rightarrow> string \<Rightarrow> bool \<times> OrderedQueue" where
  "dequeue q i =
     (let index = indexOf (oq_queue q) i in
      if index > - 1 then
        (let q1 = q\<lparr>oq_queue := splice1 (oq_queue q) index\<rparr>;
             q2 = (case oq_waiting q1 i of
                     None \<Rightarrow> q1
                   | Some p \<Rightarrow> q1\<lparr>oq_promises := resolve_at (oq_promises q1) p False\<rparr>);
             q3 = q2\<lparr>oq_waiting := (oq_waiting q2)(i := None)\<rparr>;
             q4 = q3\<lparr>oq_emitted := oq_emitted q3 @ [(''dequeue'', i)]\<rparr>
         in (True, processQueue q4))
      else (False, q))"

text \<open>
  \<^verbatim>\<open>wait\<close> returns \<^verbatim>\<open>false\<close> at once when the ticket has no waiter, and the waiter's
  promise otherwise; \<open>outcome\<close> reads what a caller holding that result has seen so far.
\<close>

datatype wait_result = Returned bool | Awaiting nat

definition wait :: "OrderedQueue \<Rightarrow> string \<Rightarrow> wait_result" where
  "wait q i = (case oq_waiting q i of None \<Rightarrow> Returned False | Some p \<Rightarrow> Awaiting p)"

definition outcome :: "OrderedQueue \<Rightarrow> wait_result \<Rightarrow> bool option" where
  "outcome q r =
     (case r of
        Returned b \<Rightarrow> Some b
      | Awaiting p \<Rightarrow>
          (if p < length (oq_promises q)
           then (case oq_promises q ! p of Pending \<Rightarrow> None | Resolved b \<Rightarrow> Some b)
           else None))"

definition getPosition :: "OrderedQueue \<Rightarrow> string \<Rightarrow> int" where
  "getPosition q i = indexOf (oq_queue q) i"

definition getQueue :: "OrderedQueue \<Rightarrow> string list" where
  "getQueue q = oq_queue q"

definition size_oq :: "OrderedQueue \<Rightarrow> int" where
  "size_oq q = int (length (oq_queue q))"

definition max_oq :: "OrderedQueue \<Rightarrow> int" where
  "max_oq q = oq_limit q"

text \<open>The calls a client makes that change the queue, and a history of them.\<close>

datatype oq_op = Enqueue string | Dequeue string

fun oq_step :: "OrderedQueue \<Rightarrow> oq_op \<Rightarrow> OrderedQueue" where
  "oq_step q (Enqueue uuid) = snd (enqueue q uuid)"
| "oq_step q (Dequeue i) = snd (dequeue q i)"

definition oq_run :: "oq_op list \<Rightarrow> OrderedQueue \<Rightarrow> OrderedQueue" where
  "oq_run ops q = foldl oq_step q ops"

text \<open>The tickets a history issued, in arrival order, and those it left enqueued.\<close>

fun arrivals :: "oq_op list \<Rightarrow> string list" where
  "arrivals [] = []"
| "arrivals (Enqueue uuid # ops) = uuid # arrivals ops"
| "arrivals (Dequeue i # ops) = arrivals ops"

definition still_enqueued :: "oq_op list \<Rightarrow> string set" where
  "still_enqueued ops =
     foldl (\<lambda>S op. case op of Enqueue uuid \<Rightarrow> insert uuid S | Dequeue i \<Rightarrow> S - {i}) {} ops"

text \<open>
  What holds of the queue between calls: no ticket twice, every enqueued ticket has its
  own promise, settled with \<^verbatim>\<open>true\<close> exactly when the ticket is active, and no other
  ticket has a waiter.
\<close>

definition oq_wf :: "OrderedQueue \<Rightarrow> bool" where
  "oq_wf q \<longleftrightarrow>
     distinct (oq_queue q) \<and> 1 \<le> oq_limit q \<and>
     inj_on (oq_waiting q) (set (oq_queue q)) \<and>
     (\<forall>i. i \<notin> set (oq_queue q) \<longrightarrow> oq_waiting q i = None) \<and>
     (\<forall>i \<in> set (oq_queue q). \<exists>p. oq_waiting q i = Some p \<and> p < length (oq_promises q) \<and>
        oq_promises q ! p = (if active q i then Resolved True else Pending))"

subsection \<open>QueueTrackerController.getQueueState\<close>

text \<open>
  The subclass adds a map from tickets to socket ids; \<^verbatim>\<open>getQueueState\<close> reads it and
  the base queue. An item whose socket id was deleted has \<open>None\<close> there.
\<close>

record QueuedItem =
  qi_id :: string
  qi_socketId :: "string option"
  qi_position :: int

record QueueState =
  qs_queue :: "QueuedItem list"
  qs_activeCount :: int
  qs_waitingCount :: int
  qs_activePosition :: int
  qs_waitingPosition :: int

definition item_position :: "int \<Rightarrow> int \<Rightarrow> int" where
  "item_position idx mx = (if idx \<ge> mx then idx - mx + 1 else idx - mx)"

text \<open>\<^verbatim>\<open>fullQueue.find(pred)?.position || 0\<close>\<close>

definition find_position :: "(QueuedItem \<Rightarrow> bool) \<Rightarrow> QueuedItem list \<Rightarrow> int" where
  "find_position pred items = (case find pred items of None \<Rightarrow> 0 | Some item \<Rightarrow> qi_position item)"

definition getQueueState :: "(string \<rightharpoonup> string) \<Rightarrow> OrderedQueue \<Rightarrow> string option \<Rightarrow> QueueState" where
  "getQueueState socketIdMap q socketId =
     (let fullQueue =
            map (\<lambda>(i, idx). \<lparr>qi_id = i,
                              qi_socketId = Some (case socketIdMap i of None \<Rightarrow> [] | Some s \<Rightarrow> s),
                              qi_position = item_position (int idx) (max_oq q)\<rparr>)
                (zip (getQueue q) [0 ..< length (getQueue q)]);
          activeCount = min (int (length fullQueue)) (max_oq q);
          waitingCount = max 0 (int (length fullQueue) - activeCount);
          activePosition =
            find_position (\<lambda>item. qi_socketId item = socketId \<and> qi_position item < 0) fullQueue;
          waitingPosition =
            find_position (\<lambda>item. qi_socketId item = socketId \<and> qi_position item > 0) fullQueue
      in \<lparr>qs_queue =
             map (\<lambda>item. if qi_socketId item \<noteq> socketId then item\<lparr>qi_socketId := None\<rparr> else item)
                 fullQueue,
           qs_activeCount = activeCount, qs_waitingCount = waitingCount,
           qs_activePosition = activePosition, qs_waitingPosition = waitingPosition\<rparr>)"

subsection \<open>The scenario of the specification\<close>

definition scenario_ABC :: OrderedQueue where
  "scenario_ABC =
     oq_run [Enqueue ''A'', Enqueue ''B'', Enqueue ''C''] (projr (OrderedQueue_new 2))"

section \<open>SerialQueue\<close>


datatype 'v settled = Returns 'v | Throws error

text \<open>
  The fields of the class, then the bookkeeping of the model: \<open>sq_awaiting\<close> counts the
  activations of \<^verbatim>\<open>work\<close> suspended at \<^verbatim>\<open>await this.callback(...)\<close>, \<open>sq_called\<close> logs
  the arguments of every call of the handler, \<open>sq_returned\<close> what every resumed
  \<^verbatim>\<open>push\<close> returned, \<open>sq_rejected\<close> the errors with which \<^verbatim>\<open>work\<close> rejected,
  \<open>sq_pushed\<close> the arguments of every call of \<^verbatim>\<open>push\<close> in the order of the calls, and
  \<open>sq_pending\<close> lists the calls of \<^verbatim>\<open>push\<close> that have not resumed yet, oldest first,
  each with a flag that says whether its \<^verbatim>\<open>waitForQueue\<close> has returned.
\<close>

record 'a SerialQueue =
  sq_items :: "'a list"
  sq_limit :: int
  sq_working :: bool
  sq_open :: bool
  sq_awaiting :: nat
  sq_called :: "'a list"
  sq_returned :: "('a \<times> bool) list"
  sq_rejected :: "error list"
  sq_pushed :: "'a list"
  sq_pending :: "('a \<times> bool) list"

definition SerialQueue_new :: "int \<Rightarrow> 'a SerialQueue" where
  "SerialQueue_new limit =
     \<lparr>sq_items = [], sq_limit = (if limit > 0 then limit else 1), sq_working = False,
      sq_open = True, sq_awaiting = 0, sq_called = [], sq_returned = [], sq_rejected = [],
      sq_pushed = [], sq_pending = []\<rparr>"


definition clear :: "'a SerialQueue \<Rightarrow> 'a SerialQueue" where
  "clear s = s\<lparr>sq_items := []\<rparr>"

definition close :: "'a SerialQueue \<Rightarrow> 'a SerialQueue" where
  "close s = clear (s\<lparr>sq_open := False, sq_working := False\<rparr>)"












text \<open>The items whose \<^verbatim>\<open>push\<close> returned true, in the order they were appended.\<close>

definition accepted :: "('a \<times> bool) list \<Rightarrow> 'a list" where
  "accepted log = map fst (filter snd log)"


text \<open>
  What holds between the events of a run in which \<^verbatim>\<open>clear\<close> is not called from
  outside: at most one activation of \<^verbatim>\<open>work\<close> awaits the handler; while the queue is
  open, the handler has been called on the accepted items up to the head of the backlog,
  in order, and the backlog is empty when nothing is working; once closed, the backlog
  is empty and nothing works.
\<close>

definition sq_inv :: "'a SerialQueue \<Rightarrow> bool" where
  "sq_inv s \<longleftrightarrow>
     sq_awaiting s \<le> 1 \<and>
     (if sq_open s
      then (if sq_working s then sq_items s \<noteq> [] else sq_items s = [] \<and> sq_awaiting s = 0) \<and>
           sq_called s @ tl (sq_items s) = accepted (sq_returned s)
      else sq_items s = [] \<and> \<not> sq_working s \<and> prefix (sq_called s) (accepted (sq_returned s)))"

text \<open>A queue that is closed, with no backlog and nothing working.\<close>

definition sq_shut :: "'a SerialQueue \<Rightarrow> bool" where
  "sq_shut s \<longleftrightarrow> \<not> sq_open s \<and> sq_items s = [] \<and> \<not> sq_working s"

text \<open>
  What holds between the events of any run, \<^verbatim>\<open>clear\<close> included: the handler has been
  called on accepted items only, in the order they were appended; \<^verbatim>\<open>clear\<close> can make it
  pass over some.
\<close>

definition sq_fifo :: "'a SerialQueue \<Rightarrow> bool" where
  "sq_fifo s \<longleftrightarrow>
     sq_awaiting s \<le> 1 \<and>
     (if sq_open s
      then (\<not> sq_working s \<longrightarrow> sq_items s = [] \<and> sq_awaiting s = 0) \<and>
           (\<exists>pre. accepted (sq_returned s) = pre @ tl (sq_items s) \<and> subseq (sq_called s) pre)
      else sq_items s = [] \<and> \<not> sq_working s \<and> subseq (sq_called s) (accepted (sq_returned s)))"

section \<open>ParalelQueue\<close>

text \<open>
  An activation of \<^verbatim>\<open>callback(order, args)\<close> is in one of these places: awaiting the
  handler \<^verbatim>\<open>func_callback\<close>; sleeping in the loop that waits for its turn, holding
  its \<^verbatim>\<open>result\<close> (\<open>None\<close> is \<^verbatim>\<open>undefined\<close>); awaiting \<^verbatim>\<open>outp_callback\<close>; returned; or
  rejected with the error the handler threw.
\<close>

datatype 'r phase = Handler | Turn "'r option" | Output | Ended | Rejected error

text \<open>
  The fields of the class (\<^verbatim>\<open>items\<close>, a \<^verbatim>\<open>Map\<close>, as an association list), then the
  bookkeeping of the model: \<open>pq_work_waits\<close> counts the activations of \<^verbatim>\<open>work\<close>
  suspended in the wait for a free slot, \<open>pq_calls\<close> lists the activations of
  \<^verbatim>\<open>callback\<close> in the order \<^verbatim>\<open>work\<close> made them, \<open>pq_output\<close> logs every call of
  \<^verbatim>\<open>outp_callback\<close> (the order of the activation that made it, and the result passed),
  \<open>pq_finished\<close> logs the handlers' completions in the order they happened,
  and \<open>pq_returned\<close> what every resumed \<^verbatim>\<open>push\<close> returned.
\<close>

record ('a, 'r) ParalelQueue =
  pq_items :: "(nat \<times> nat \<times> 'a) list"
  pq_limit :: int
  pq_curr_working :: int
  pq_push_order :: nat
  pq_work_order :: nat
  pq_outp_order :: nat
  pq_working :: bool
  pq_clearing :: bool
  pq_open :: bool
  pq_work_waits :: nat
  pq_calls :: "(nat \<times> 'a \<times> 'r phase) list"
  pq_output :: "(nat \<times> 'r option) list"
  pq_finished :: "(nat \<times> 'r settled) list"
  pq_returned :: "('a \<times> bool) list"

definition ParalelQueue_new :: "int \<Rightarrow> ('a, 'r) ParalelQueue" where
  "ParalelQueue_new limit =
     \<lparr>pq_items = [], pq_limit = (if limit > 0 then limit else 1), pq_curr_working = 0,
      pq_push_order = 0, pq_work_order = 0, pq_outp_order = 0, pq_working = False,
      pq_clearing = False, pq_open = True, pq_work_waits = 0, pq_calls = [],
      pq_output = [], pq_finished = [], pq_returned = []\<rparr>"


text \<open>\<^verbatim>\<open>items.has(k)\<close>, and the test of \<^verbatim>\<open>waitForQueue\<close>, which holds while its caller has
  to sleep on.\<close>

definition has :: "('a, 'r) ParalelQueue \<Rightarrow> nat \<Rightarrow> bool" where
  "has s k = (map_of (pq_items s) k \<noteq> None)"

definition waitForQueue_pq :: "('a, 'r) ParalelQueue \<Rightarrow> bool \<Rightarrow> bool" where
  "waitForQueue_pq s bEmpty =
     (if bEmpty then pq_open s \<and> pq_outp_order s \<noteq> pq_push_order s
      else pq_open s \<and> int (length (pq_items s)) \<ge> pq_limit s)"

definition clear_pq :: "('a, 'r) ParalelQueue \<Rightarrow> ('a, 'r) ParalelQueue" where
  "clear_pq s = s\<lparr>pq_items := [], pq_clearing := True\<rparr>"

definition close_pq :: "('a, 'r) ParalelQueue \<Rightarrow> ('a, 'r) ParalelQueue" where
  "close_pq s = clear_pq (s\<lparr>pq_open := False, pq_working := False\<rparr>)"

text \<open>
  \<^verbatim>\<open>callback(order, args)\<close>, cut at its \<^verbatim>\<open>await\<close>s. The activation is entry \<open>i\<close> of
  \<open>pq_calls\<close>. \<open>callback_finish\<close> is the end of the method, after the output.
  \<open>callback_turn\<close> is one test of the loop that waits for the turn, with what follows
  when the loop is left: the early return while clearing, the call of
  \<^verbatim>\<open>outp_callback\<close>, or the end of the method at once. \<open>callback_start\<close> is the call
  itself, which awaits the handler when the queue is open.
\<close>

definition order_of :: "('a, 'r) ParalelQueue \<Rightarrow> nat \<Rightarrow> nat" where
  "order_of s i = fst (pq_calls s ! i)"

definition phase_of :: "('a, 'r) ParalelQueue \<Rightarrow> nat \<Rightarrow> 'r phase" where
  "phase_of s i = snd (snd (pq_calls s ! i))"

definition set_phase :: "('a, 'r) ParalelQueue \<Rightarrow> nat \<Rightarrow> 'r phase \<Rightarrow> ('a, 'r) ParalelQueue" where
  "set_phase s i ph =
     s\<lparr>pq_calls := (pq_calls s)[i := (fst (pq_calls s ! i), fst (snd (pq_calls s ! i)), ph)]\<rparr>"

definition callback_finish :: "('a, 'r) ParalelQueue \<Rightarrow> nat \<Rightarrow> ('a, 'r) ParalelQueue" where
  "callback_finish s i =
     set_phase (s\<lparr>pq_items := AList.delete (order_of s i) (pq_items s),
                  pq_curr_working := pq_curr_working s - 1,
                  pq_outp_order := pq_outp_order s + 1\<rparr>) i Ended"

definition callback_turn ::
  "('a, 'r) ParalelQueue \<Rightarrow> nat \<Rightarrow> 'r option \<Rightarrow> ('a, 'r) ParalelQueue" where
  "callback_turn s i result =
     (if \<not> pq_clearing s \<and> pq_outp_order s \<noteq> order_of s i then set_phase s i (Turn result)
      else if pq_clearing s then set_phase (s\<lparr>pq_outp_order := pq_push_order s\<rparr>) i Ended
      else if pq_open s \<and> has s (order_of s i)
           then set_phase (s\<lparr>pq_output := pq_output s @ [(order_of s i, result)]\<rparr>) i Output
           else callback_finish s i)"

definition callback_start ::
  "('a, 'r) ParalelQueue \<Rightarrow> nat \<Rightarrow> 'a \<Rightarrow> ('a, 'r) ParalelQueue" where
  "callback_start s order args =
     (let s1 = s\<lparr>pq_calls := pq_calls s @ [(order, args, Handler)]\<rparr>
      in if pq_open s1 then s1 else callback_turn s1 (length (pq_calls s)) None)"

text \<open>
  \<^verbatim>\<open>work\<close>, cut at its \<^verbatim>\<open>await\<close>. \<open>work_loop\<close> is the loop from its test to the wait
  for a free slot, where the activation is suspended, or to the end of the method. The
  call of \<^verbatim>\<open>callback\<close> is not awaited.
\<close>

lemma callback_start_orders:
  "pq_push_order (callback_start s k a) = pq_push_order s \<and>
   pq_work_order (callback_start s k a) = pq_work_order s"
  by (simp add: callback_start_def callback_turn_def callback_finish_def set_phase_def Let_def)

function work_loop_pq :: "('a, 'r) ParalelQueue \<Rightarrow> ('a, 'r) ParalelQueue" where
  "work_loop_pq s =
     (if pq_working s \<and> length (pq_items s) > 0 \<and> pq_work_order s < pq_push_order s
      then (case map_of (pq_items s) (pq_work_order s) of
              None \<Rightarrow> work_loop_pq (s\<lparr>pq_work_order := pq_work_order s + 1\<rparr>)
            | Some item \<Rightarrow>
                (let s1 = s\<lparr>pq_work_order := pq_work_order s + 1,
                             pq_curr_working := pq_curr_working s + 1\<rparr>;
                     s2 = callback_start s1 (fst item) (snd item)
                 in if pq_open s2 \<and> pq_curr_working s2 \<ge> pq_limit s2
                    then s2\<lparr>pq_work_waits := pq_work_waits s2 + 1\<rparr>
                    else work_loop_pq s2))
      else s\<lparr>pq_working := False\<rparr>)"
  by pat_completeness auto
termination
  by (relation "measure (\<lambda>s. pq_push_order s - pq_work_order s)")
     (auto simp: callback_start_orders)

declare work_loop_pq.simps [simp del]

definition work_pq :: "('a, 'r) ParalelQueue \<Rightarrow> ('a, 'r) ParalelQueue" where
  "work_pq s = work_loop_pq (s\<lparr>pq_working := True, pq_clearing := False\<rparr>)"

text \<open>One test of the wait for a free slot, by a suspended activation of \<^verbatim>\<open>work\<close>.\<close>

definition work_poll :: "('a, 'r) ParalelQueue \<Rightarrow> ('a, 'r) ParalelQueue" where
  "work_poll s =
     (if pq_work_waits s = 0 then s
      else if pq_open s \<and> pq_curr_working s \<ge> pq_limit s then s
      else work_loop_pq (s\<lparr>pq_work_waits := pq_work_waits s - 1\<rparr>))"

text \<open>
  \<^verbatim>\<open>push\<close> from the point where \<^verbatim>\<open>await this.waitForQueue(false)\<close> has returned; as in
  SerialQueue, the continuation can meet any state.
\<close>

definition push_pq :: "('a, 'r) ParalelQueue \<Rightarrow> 'a \<Rightarrow> ('a, 'r) ParalelQueue" where
  "push_pq s args =
     (if \<not> pq_open s then s\<lparr>pq_returned := pq_returned s @ [(args, False)]\<rparr>
      else (let s1 = s\<lparr>pq_items :=
                         AList.update (pq_push_order s) (pq_push_order s, args) (pq_items s)\<rparr>;
                s2 = s1\<lparr>pq_push_order := pq_push_order s1 + 1\<rparr>;
                s3 = (if \<not> pq_working s2 then work_pq s2 else s2)
            in s3\<lparr>pq_returned := pq_returned s3 @ [(args, True)]\<rparr>))"

text \<open>
  The events of a run. A \<^verbatim>\<open>push\<close> resumes; the suspended \<^verbatim>\<open>work\<close> polls; the handler
  of activation \<open>i\<close> settles, in any order among the activations; activation \<open>i\<close> polls
  for its turn; the output callback that activation \<open>i\<close> awaits returns; \<^verbatim>\<open>clear\<close> and
  \<^verbatim>\<open>close\<close> are called from outside. An event for an activation that is not at that
  place leaves the state as it is. The output callback is taken to return.
\<close>

datatype ('a, 'r) pq_event =
  PqPush 'a | PqWorkPoll | PqFinish nat "'r settled" | PqTurnPoll nat | PqOutputDone nat
  | PqClear | PqClose

definition handler_settles ::
  "('a, 'r) ParalelQueue \<Rightarrow> nat \<Rightarrow> 'r settled \<Rightarrow> ('a, 'r) ParalelQueue" where
  "handler_settles s i r =
     (if i < length (pq_calls s) \<and> phase_of s i = Handler
      then (let s1 = s\<lparr>pq_finished := pq_finished s @ [(order_of s i, r)]\<rparr>
            in case r of
                 Returns v \<Rightarrow> callback_turn s1 i (Some v)
               | Throws e \<Rightarrow> set_phase s1 i (Rejected e))
      else s)"

definition turn_poll :: "('a, 'r) ParalelQueue \<Rightarrow> nat \<Rightarrow> ('a, 'r) ParalelQueue" where
  "turn_poll s i =
     (if i < length (pq_calls s)
      then (case phase_of s i of Turn result \<Rightarrow> callback_turn s i result | _ \<Rightarrow> s)
      else s)"

definition output_done :: "('a, 'r) ParalelQueue \<Rightarrow> nat \<Rightarrow> ('a, 'r) ParalelQueue" where
  "output_done s i =
     (if i < length (pq_calls s) \<and> phase_of s i = Output then callback_finish s i else s)"

fun pq_step :: "('a, 'r) ParalelQueue \<Rightarrow> ('a, 'r) pq_event \<Rightarrow> ('a, 'r) ParalelQueue" where
  "pq_step s (PqPush args) = push_pq s args"
| "pq_step s PqWorkPoll = work_poll s"
| "pq_step s (PqFinish i r) = handler_settles s i r"
| "pq_step s (PqTurnPoll i) = turn_poll s i"
| "pq_step s (PqOutputDone i) = output_done s i"
| "pq_step s PqClear = clear_pq s"
| "pq_step s PqClose = close_pq s"

definition pq_run ::
  "('a, 'r) pq_event list \<Rightarrow> ('a, 'r) ParalelQueue \<Rightarrow> ('a, 'r) ParalelQueue" where
  "pq_run es s = foldl pq_step s es"

definition undisturbed :: "('a, 'r) pq_event list \<Rightarrow> bool" where
  "undisturbed es = (PqClear \<notin> set es \<and> PqClose \<notin> set es)"

text \<open>
  What holds between the events of a run in which \<^verbatim>\<open>clear\<close> and \<^verbatim>\<open>close\<close> are not
  called; \<open>A\<close> is the list of the arguments of the accepted pushes. The queue is open and
  not clearing; activation \<open>i\<close> carries order \<open>i\<close> and the arguments of the \<open>i\<close>-th
  accepted push; \<^verbatim>\<open>items\<close> holds exactly the orders from \<^verbatim>\<open>outp_order\<close> up to
  \<^verbatim>\<open>push_order\<close>; the activations below \<^verbatim>\<open>outp_order\<close> have returned, only the one at
  \<^verbatim>\<open>outp_order\<close> can be in the output callback, and the others are with their handler,
  waiting for their turn, or rejected.
\<close>

definition phase_ok :: "nat \<Rightarrow> nat \<Rightarrow> 'r phase \<Rightarrow> bool" where
  "phase_ok outp i ph =
     (case ph of Handler \<Rightarrow> outp \<le> i | Turn r \<Rightarrow> outp \<le> i | Output \<Rightarrow> i = outp
      | Ended \<Rightarrow> i < outp | Rejected e \<Rightarrow> outp \<le> i)"

definition pq_shape :: "'a list \<Rightarrow> ('a, 'r) ParalelQueue \<Rightarrow> bool" where
  "pq_shape A s \<longleftrightarrow>
     pq_open s \<and> \<not> pq_clearing s \<and>
     pq_outp_order s \<le> pq_work_order s \<and> pq_work_order s \<le> pq_push_order s \<and>
     pq_push_order s = length A \<and>
     map fst (pq_calls s) = [0 ..< pq_work_order s] \<and>
     map (\<lambda>c. fst (snd c)) (pq_calls s) = take (pq_work_order s) A \<and>
     (\<forall>k. map_of (pq_items s) k =
        (if pq_outp_order s \<le> k \<and> k < pq_push_order s then Some (k, A ! k) else None)) \<and>
     (\<forall>i < pq_work_order s. phase_ok (pq_outp_order s) i (phase_of s i))"

text \<open>
  And of the logs: the output callback has been called for the orders below
  \<^verbatim>\<open>outp_order\<close>, in order, and for \<^verbatim>\<open>outp_order\<close> when its activation is in the
  output callback; every result passed to it, and every result held by an activation
  that waits for its turn, is the value its handler returned; a handler settles once;
  and an activation whose handler threw is rejected with that error.
\<close>

definition pq_logs :: "('a, 'r) ParalelQueue \<Rightarrow> bool" where
  "pq_logs s \<longleftrightarrow>
     map fst (pq_output s) =
       [0 ..< (if pq_outp_order s < pq_work_order s \<and> phase_of s (pq_outp_order s) = Output
               then Suc (pq_outp_order s) else pq_outp_order s)] \<and>
     (\<forall>(k, r) \<in> set (pq_output s). \<exists>v. r = Some v \<and> (k, Returns v) \<in> set (pq_finished s)) \<and>
     (\<forall>i < pq_work_order s. \<forall>r. phase_of s i = Turn r \<longrightarrow>
        (\<exists>v. r = Some v \<and> (i, Returns v) \<in> set (pq_finished s))) \<and>
     distinct (map fst (pq_finished s)) \<and>
     (\<forall>(k, r) \<in> set (pq_finished s). k < pq_work_order s \<and> phase_of s k \<noteq> Handler \<and>
        (\<forall>e. r = Throws e \<longrightarrow> phase_of s k = Rejected e))"

text \<open>The state after \<^verbatim>\<open>work\<close> has handed the order \<^verbatim>\<open>work_order\<close> to a new
  activation.\<close>

definition dispatched :: "'a list \<Rightarrow> ('a, 'r) ParalelQueue \<Rightarrow> ('a, 'r) ParalelQueue" where
  "dispatched A s =
     s\<lparr>pq_work_order := pq_work_order s + 1, pq_curr_working := pq_curr_working s + 1,
       pq_calls := pq_calls s @ [(pq_work_order s, A ! pq_work_order s, Handler)]\<rparr>"

text \<open>Both together, for the arguments of the pushes that returned true.\<close>

definition pq_inv :: "('a, 'r) ParalelQueue \<Rightarrow> bool" where
  "pq_inv s \<longleftrightarrow> pq_shape (accepted (pq_returned s)) s \<and> pq_logs s"

text \<open>
  What holds between the events of every run, \<^verbatim>\<open>clear\<close> and \<^verbatim>\<open>close\<close> included. An item
  is stored under its own order, below \<^verbatim>\<open>push_order\<close>; the activations carry increasing
  orders below \<^verbatim>\<open>work_order\<close>; the output callback has been called for increasing
  orders, none above \<^verbatim>\<open>outp_order\<close>, each by an activation that is in the output
  callback or has returned.
\<close>

definition pq_mono :: "('a, 'r) ParalelQueue \<Rightarrow> bool" where
  "pq_mono s \<longleftrightarrow>
     pq_work_order s \<le> pq_push_order s \<and>
     (\<forall>k v. map_of (pq_items s) k = Some v \<longrightarrow> fst v = k \<and> k < pq_push_order s) \<and>
     sorted_wrt (<) (map fst (pq_calls s)) \<and>
     (\<forall>k \<in> set (map fst (pq_calls s)). k < pq_work_order s) \<and>
     (\<forall>(k, r) \<in> set (pq_output s). k \<le> pq_outp_order s \<and> k < pq_push_order s \<and>
        (\<exists>j < length (pq_calls s). order_of s j = k \<and>
           (phase_of s j = Output \<or> phase_of s j = Ended))) \<and>
     sorted_wrt (<) (map fst (pq_output s))"

text \<open>
  And of the values, for the list \<open>A\<close> of the arguments of the accepted pushes: the item
  and the activation of order \<open>k\<close> carry \<open>A ! k\<close>; every result passed to the output
  callback is the value the handler of that order returned; and so is the result held by
  an activation that waits for its turn, unless the queue is closed.
\<close>

definition pq_vals :: "'a list \<Rightarrow> ('a, 'r) ParalelQueue \<Rightarrow> bool" where
  "pq_vals A s \<longleftrightarrow>
     pq_push_order s = length A \<and>
     (\<forall>k v. map_of (pq_items s) k = Some v \<longrightarrow> snd v = A ! k) \<and>
     (\<forall>c \<in> set (pq_calls s). fst (snd c) = A ! fst c) \<and>
     (\<forall>(k, r) \<in> set (pq_output s). \<exists>v. r = Some v \<and> (k, Returns v) \<in> set (pq_finished s)) \<and>
     (\<forall>i < length (pq_calls s). \<forall>r. phase_of s i = Turn r \<longrightarrow>
        (\<exists>v. r = Some v \<and> (order_of s i, Returns v) \<in> set (pq_finished s)) \<or> \<not> pq_open s)"

text \<open>A handler settles once: the settled orders are distinct, and each belongs to an
  activation that has left its handler.\<close>

definition pq_once :: "('a, 'r) ParalelQueue \<Rightarrow> bool" where
  "pq_once s \<longleftrightarrow>
     distinct (map fst (pq_finished s)) \<and>
     (\<forall>(k, r) \<in> set (pq_finished s).
        \<exists>j < length (pq_calls s). order_of s j = k \<and> phase_of s j \<noteq> Handler)"

text \<open>
  What holds of the handlers that threw, between the events of every run: the order of
  each belongs to an activation that is rejected with the error thrown. \<open>unrejected\<close>
  says that an activation has not been rejected.
\<close>

definition pq_thrown :: "('a, 'r) ParalelQueue \<Rightarrow> bool" where
  "pq_thrown s \<longleftrightarrow>
     (\<forall>(k, r) \<in> set (pq_finished s). \<forall>e. r = Throws e \<longrightarrow>
        (\<exists>j < length (pq_calls s). order_of s j = k \<and> phase_of s j = Rejected e))"

definition unrejected :: "('a, 'r) ParalelQueue \<Rightarrow> nat \<Rightarrow> bool" where
  "unrejected s i \<longleftrightarrow> (\<forall>e. phase_of s i \<noteq> Rejected e)"

text \<open>
  A queue of limit 1 whose only activation has returned without giving its slot back:
  while the queue is open, \<^verbatim>\<open>work\<close> is suspended in its wait for a free slot.
\<close>

definition pq_stuck :: "('a, 'r) ParalelQueue \<Rightarrow> bool" where
  "pq_stuck s \<longleftrightarrow>
     pq_limit s = 1 \<and> pq_curr_working s = 1 \<and> pq_output s = [] \<and>
     map (\<lambda>c. snd (snd c)) (pq_calls s) = [Ended] \<and> pq_work_waits s \<le> 1 \<and>
     (if pq_open s then pq_working s \<and> pq_work_waits s = 1 else \<not> pq_working s)"

section \<open>StreamPiper\<close>

type_synonym byte = "8 word"

definition HEADER_SIZE :: nat where
  "HEADER_SIZE = 1024"

text \<open>
  The source is a Node \<^verbatim>\<open>Readable\<close>: the chunks it has not handed out yet, whether it is
  flowing (\<^verbatim>\<open>resume\<close>) or paused, whether it has emitted \<^verbatim>\<open>'end'\<close>, and the error it
  has emitted, after which it is destroyed and emits nothing more.
\<close>

record Readable =
  src_chunks :: "byte list list"
  src_flowing :: bool
  src_ended :: bool
  src_failed :: "error option"

definition Readable_from :: "byte list list \<Rightarrow> Readable" where
  "Readable_from chunks =
     \<lparr>src_chunks = chunks, src_flowing = False, src_ended = False, src_failed = None\<rparr>"

definition pause :: "Readable \<Rightarrow> Readable" where
  "pause r = r\<lparr>src_flowing := False\<rparr>"

definition resume :: "Readable \<Rightarrow> Readable" where
  "resume r = r\<lparr>src_flowing := True\<rparr>"

text \<open>The output \<^verbatim>\<open>PassThrough\<close>: the chunks written to it, \<^verbatim>\<open>end()\<close>, and the
  \<^verbatim>\<open>'error'\<close> events emitted on it.\<close>

record PassThrough =
  out_written :: "byte list list"
  out_ended :: bool
  out_errors :: "error list"

text \<open>
  The fields of the class. The \<^verbatim>\<open>Hash\<close> object is the bytes fed to \<^verbatim>\<open>update\<close> so far;
  \<^verbatim>\<open>digest('hex')\<close> of the crypto library is a parameter \<open>digest\<close> of the functions
  that call it. \<open>sp_bytesProcessed\<close> is the local counter of \<^verbatim>\<open>_initialize\<close>, and
  \<open>sp_headerWaits\<close> counts the calls of \<^verbatim>\<open>getHeader\<close> suspended at
  \<^verbatim>\<open>await this.headerPromise\<close>. The \<^verbatim>\<open>'progress'\<close> event, a floating-point percentage
  that nothing reads back, is left out.
\<close>

record StreamPiper =
  sp_sourceStream :: Readable
  sp_fileSize :: int
  sp_header :: "byte list"
  sp_dataHash :: "string option"
  sp_hash :: "byte list"
  sp_headerPromise :: "byte list promise"
  sp_hashPromise :: "string promise"
  sp_outputStream :: PassThrough
  sp_isInitialized :: bool
  sp_isHeaderFinalized :: bool
  sp_bytesProcessed :: nat
  sp_headerWaits :: nat

definition StreamPiper_new :: "Readable \<Rightarrow> int \<Rightarrow> StreamPiper" where
  "StreamPiper_new stream fileSize =
     \<lparr>sp_sourceStream = pause stream,
      sp_fileSize = (if fileSize > 0 then fileSize else 0),
      sp_header = [], sp_dataHash = None, sp_hash = [],
      sp_headerPromise = Pending, sp_hashPromise = Pending,
      sp_outputStream = \<lparr>out_written = [], out_ended = False, out_errors = []\<rparr>,
      sp_isInitialized = False, sp_isHeaderFinalized = False,
      sp_bytesProcessed = 0, sp_headerWaits = 0\<rparr>"

text \<open>The listener of \<^verbatim>\<open>'data'\<close>.\<close>

definition capture_header :: "StreamPiper \<Rightarrow> byte list \<Rightarrow> StreamPiper" where
  "capture_header s chunk =
     (let bytesNeeded = int HEADER_SIZE - int (length (sp_header s));
          bytesToTake = min bytesNeeded (int (length chunk));
          headerPart = slice0 chunk bytesToTake;
          s1 = s\<lparr>sp_header := sp_header s @ headerPart\<rparr>;
          s2 = (if length (sp_header s1) \<ge> HEADER_SIZE
                then s1\<lparr>sp_isHeaderFinalized := True\<rparr> else s1)
      in if length (sp_header s2) \<ge> HEADER_SIZE
         then s2\<lparr>sp_headerPromise := resolve (sp_headerPromise s2) (sp_header s2)\<rparr>
         else s2)"

definition on_data :: "StreamPiper \<Rightarrow> byte list \<Rightarrow> StreamPiper" where
  "on_data s chunk =
     (let s1 = s\<lparr>sp_hash := sp_hash s @ chunk,
                  sp_bytesProcessed := sp_bytesProcessed s + length chunk\<rparr>;
          s2 = (if \<not> sp_isHeaderFinalized s1 then capture_header s1 chunk else s1)
      in s2\<lparr>sp_outputStream :=
             (sp_outputStream s2)\<lparr>out_written := out_written (sp_outputStream s2) @ [chunk]\<rparr>\<rparr>)"

text \<open>The listener of \<^verbatim>\<open>'end'\<close>.\<close>

definition on_end :: "(byte list \<Rightarrow> string) \<Rightarrow> StreamPiper \<Rightarrow> StreamPiper" where
  "on_end digest s =
     (let s1 = (if \<not> sp_isHeaderFinalized s then s\<lparr>sp_isHeaderFinalized := True\<rparr> else s);
          s2 = (if length (sp_header s1) < HEADER_SIZE
                then s1\<lparr>sp_headerPromise := resolve (sp_headerPromise s1) (sp_header s1)\<rparr>
                else s1);
          s3 = s2\<lparr>sp_dataHash := Some (digest (sp_hash s2))\<rparr>;
          s4 = s3\<lparr>sp_hashPromise := resolve (sp_hashPromise s3) (digest (sp_hash s2))\<rparr>
      in s4\<lparr>sp_outputStream := (sp_outputStream s4)\<lparr>out_ended := True\<rparr>\<rparr>)"

text \<open>The listener of \<^verbatim>\<open>'error'\<close>.\<close>

definition on_error :: "StreamPiper \<Rightarrow> error \<Rightarrow> StreamPiper" where
  "on_error s err =
     s\<lparr>sp_outputStream :=
         (sp_outputStream s)\<lparr>out_errors := out_errors (sp_outputStream s) @ [err]\<rparr>\<rparr>"

text \<open>\<^verbatim>\<open>_initialize\<close> attaches the three listeners once and resumes the source.\<close>

definition initialize :: "StreamPiper \<Rightarrow> StreamPiper" where
  "initialize s =
     (if sp_isInitialized s then s
      else s\<lparr>sp_isInitialized := True, sp_bytesProcessed := 0,
              sp_sourceStream := resume (sp_sourceStream s)\<rparr>)"

text \<open>
  What an \<^verbatim>\<open>async\<close> accessor hands to its caller: a value at once, or the promise of
  the instance, which \<open>seen\<close> reads in a later state.
\<close>

datatype 'a reply = Value 'a | Promise

definition seen :: "'a promise \<Rightarrow> 'a reply \<Rightarrow> 'a promise" where
  "seen p r = (case r of Value v \<Rightarrow> Resolved v | Promise \<Rightarrow> p)"

text \<open>\<^verbatim>\<open>getHeader\<close> up to its \<^verbatim>\<open>await\<close>, and its continuation once the promise is
  resolved.\<close>

definition getHeader :: "StreamPiper \<Rightarrow> byte list reply \<times> StreamPiper" where
  "getHeader s =
     (if sp_isHeaderFinalized s then (Value (sp_header s), s)
      else (let s1 = initialize s in (Promise, s1\<lparr>sp_headerWaits := sp_headerWaits s1 + 1\<rparr>)))"

definition getHeader_resume :: "StreamPiper \<Rightarrow> StreamPiper" where
  "getHeader_resume s =
     (case sp_headerPromise s of
        Pending \<Rightarrow> s
      | Resolved header \<Rightarrow>
          (if sp_headerWaits s > 0
           then s\<lparr>sp_headerWaits := sp_headerWaits s - 1,
                   sp_sourceStream := pause (sp_sourceStream s)\<rparr>
           else s))"

definition getStream :: "StreamPiper \<Rightarrow> PassThrough \<times> StreamPiper" where
  "getStream s =
     (let s1 = initialize s;
          s2 = s1\<lparr>sp_sourceStream := resume (sp_sourceStream s1)\<rparr>
      in (sp_outputStream s2, s2))"

text \<open>\<^verbatim>\<open>if (this.dataHash)\<close> holds for a string that is not empty.\<close>

definition getHash :: "StreamPiper \<Rightarrow> string reply \<times> StreamPiper" where
  "getHash s =
     (let later = (let s1 = initialize s;
                       s2 = s1\<lparr>sp_sourceStream := resume (sp_sourceStream s1)\<rparr>
                   in (Promise, s2))
      in case sp_dataHash s of
           None \<Rightarrow> later
         | Some h \<Rightarrow> if h \<noteq> [] then (Value h, s) else later)"

text \<open>
  The events of a run: the calls of the accessors, the continuation of a suspended
  \<^verbatim>\<open>getHeader\<close>, and what the source does. The source hands out its next chunk, or
  ends, only while it has a \<^verbatim>\<open>'data'\<close> listener and is flowing, and not after it has
  ended or failed; an event that cannot happen in a state leaves it as it is.
\<close>

datatype sp_event =
  GetHeader | GetHeaderResume | GetStream | GetHash | SrcData | SrcEnd | SrcError error

definition src_live :: "StreamPiper \<Rightarrow> bool" where
  "src_live s =
     (sp_isInitialized s \<and> src_flowing (sp_sourceStream s) \<and>
      \<not> src_ended (sp_sourceStream s) \<and> src_failed (sp_sourceStream s) = None)"

fun sp_step :: "(byte list \<Rightarrow> string) \<Rightarrow> StreamPiper \<Rightarrow> sp_event \<Rightarrow> StreamPiper" where
  "sp_step digest s GetHeader = snd (getHeader s)"
| "sp_step digest s GetHeaderResume = getHeader_resume s"
| "sp_step digest s GetStream = snd (getStream s)"
| "sp_step digest s GetHash = snd (getHash s)"
| "sp_step digest s SrcData =
     (case src_chunks (sp_sourceStream s) of
        [] \<Rightarrow> s
      | chunk # rest \<Rightarrow>
          (if src_live s
           then on_data (s\<lparr>sp_sourceStream := (sp_sourceStream s)\<lparr>src_chunks := rest\<rparr>\<rparr>) chunk
           else s))"
| "sp_step digest s SrcEnd =
     (if src_live s \<and> src_chunks (sp_sourceStream s) = []
      then on_end digest (s\<lparr>sp_sourceStream := (sp_sourceStream s)\<lparr>src_ended := True\<rparr>\<rparr>)
      else s)"
| "sp_step digest s (SrcError err) =
     (if src_failed (sp_sourceStream s) = None \<and> \<not> src_ended (sp_sourceStream s)
      then (let s1 = s\<lparr>sp_sourceStream := (sp_sourceStream s)\<lparr>src_failed := Some err\<rparr>\<rparr>
            in if sp_isInitialized s1 then on_error s1 err else s1)
      else s)"

definition sp_run :: "(byte list \<Rightarrow> string) \<Rightarrow> sp_event list \<Rightarrow> StreamPiper \<Rightarrow> StreamPiper" where
  "sp_run digest es s = foldl (sp_step digest) s es"


section \<open>Arrays and promises\<close>

lemma indexOf_ge: "indexOf xs x \<ge> - 1"
  by (induction xs) (auto simp: Let_def)

lemma indexOf_neg_iff: "indexOf xs x < 0 \<longleftrightarrow> x \<notin> set xs"
  by (induction xs) (auto simp: Let_def)

lemma indexOf_pos_iff: "indexOf xs x > - 1 \<longleftrightarrow> x \<in> set xs"
  using indexOf_neg_iff[of xs x] indexOf_ge[of xs x] by auto

text \<open>The test of \<^verbatim>\<open>active\<close> on an index is membership in the first \<open>k\<close> entries.\<close>

lemma indexOf_window:
  "(indexOf xs x > - 1 \<and> indexOf xs x < k) \<longleftrightarrow> x \<in> set (take (nat k) xs)"
proof (induction xs arbitrary: k)
  case Nil
  then show ?case by simp
next
  case (Cons y ys)
  show ?case
  proof (cases "y = x")
    case True
    then show ?thesis by (cases "nat k") auto
  next
    case False
    have "(indexOf ys x > - 1 \<and> indexOf ys x < k - 1) \<longleftrightarrow> x \<in> set (take (nat (k - 1)) ys)"
      by (rule Cons.IH)
    moreover have "indexOf ys x \<ge> - 1" by (rule indexOf_ge)
    ultimately show ?thesis using False
      by (cases "nat k") (auto simp: Let_def nat_diff_distrib take_Cons')
  qed
qed

lemma splice1_indexOf: "x \<in> set xs \<Longrightarrow> splice1 xs (indexOf xs x) = remove1 x xs"
proof (induction xs)
  case Nil
  then show ?case by simp
next
  case (Cons y ys)
  show ?case
  proof (cases "y = x")
    case True
    then show ?thesis by (simp add: splice1_def)
  next
    case False
    with Cons have mem: "x \<in> set ys" by simp
    then have nn: "\<not> indexOf ys x < 0" by (simp add: indexOf_neg_iff)
    have "splice1 ys (indexOf ys x) = remove1 x ys" using Cons.IH mem by simp
    then show ?thesis using False nn
      by (simp add: splice1_def Let_def nat_add_distrib)
  qed
qed

lemma slice0_take: "0 \<le> e \<Longrightarrow> slice0 xs e = take (nat e) xs"
  by (simp add: slice0_def)

lemma take_remove1_subset:
  "x \<in> set (take n xs) \<Longrightarrow> x \<noteq> i \<Longrightarrow> x \<in> set (take n (remove1 i xs))"
proof (induction xs arbitrary: n)
  case Nil
  then show ?case by simp
next
  case (Cons y ys)
  have mono: "\<And>m. set (take m ys) \<subseteq> set (take (Suc m) ys)"
    by (rule set_take_subset_set_take) simp
  from Cons show ?case
    using mono by (cases n) auto
qed

text \<open>Removing an entry of the first \<open>n\<close> moves entry \<open>n\<close> into the first \<open>n\<close>.\<close>

lemma next_in_line:
  "distinct xs \<Longrightarrow> a \<in> set (take n xs) \<Longrightarrow> n < length xs \<Longrightarrow>
   xs ! n \<in> set (take n (remove1 a xs))"
proof (induction xs arbitrary: n)
  case Nil
  then show ?case by simp
next
  case (Cons y ys)
  show ?case
  proof (cases n)
    case 0
    with Cons.prems show ?thesis by simp
  next
    case (Suc m)
    with Cons.prems have m: "m < length ys" "distinct ys" by auto
    show ?thesis
    proof (cases "a = y")
      case True
      have "ys ! m \<in> set (take (Suc m) ys)"
        using m(1) by (auto simp: in_set_conv_nth intro!: exI[of _ m])
      then show ?thesis using True Suc by simp
    next
      case False
      with Cons.prems Suc have "a \<in> set (take m ys)" by simp
      then have "ys ! m \<in> set (take m (remove1 a ys))" using Cons.IH m by simp
      then show ?thesis using False Suc by simp
    qed
  qed
qed

lemma find_first_outside:
  "distinct xs \<Longrightarrow> n < length xs \<Longrightarrow> find (\<lambda>i. i \<notin> set (take n xs)) xs = Some (xs ! n)"
proof (induction xs arbitrary: n)
  case Nil
  then show ?case by simp
next
  case (Cons y ys)
  show ?case
  proof (cases n)
    case 0
    then show ?thesis by simp
  next
    case (Suc m)
    with Cons.prems have m: "m < length ys" "distinct ys" "y \<notin> set ys" by auto
    have "find (\<lambda>i. i \<notin> set (take m ys)) ys = Some (ys ! m)" using Cons.IH m by simp
    moreover have "find (\<lambda>i. i \<noteq> y \<and> i \<notin> set (take m ys)) ys
        = find (\<lambda>i. i \<notin> set (take m ys)) ys"
      using m(3) by (intro find_cong) auto
    ultimately show ?thesis using Suc by simp
  qed
qed

lemma resolve_simps [simp]:
  "resolve Pending v = Resolved v" "resolve (Resolved w) v = Resolved w"
  by (simp_all add: resolve_def)

lemma resolve_idem: "resolve (resolve a v) v = resolve a v"
  by (cases a) simp_all

lemma length_resolve_at [simp]: "length (resolve_at ps p v) = length ps"
  by (simp add: resolve_at_def)

lemma nth_resolve_at:
  "a < length ps \<Longrightarrow> resolve_at ps p v ! a = (if a = p then resolve (ps ! a) v else ps ! a)"
  by (simp add: resolve_at_def)

section \<open>OrderedQueue: the active window\<close>

lemma foldl_processQueue_body:
  "oq_queue (foldl processQueue_body q xs) = oq_queue q \<and>
   oq_waiting (foldl processQueue_body q xs) = oq_waiting q \<and>
   oq_limit (foldl processQueue_body q xs) = oq_limit q \<and>
   length (oq_promises (foldl processQueue_body q xs)) = length (oq_promises q) \<and>
   (\<forall>a < length (oq_promises q). oq_promises (foldl processQueue_body q xs) ! a =
      (if \<exists>i \<in> set xs. oq_waiting q i = Some a then resolve (oq_promises q ! a) True
       else oq_promises q ! a))"
proof (induction xs rule: rev_induct)
  case Nil
  then show ?case by simp
next
  case (snoc x xs)
  then show ?case
    by (cases "oq_waiting q x")
       (auto simp: processQueue_body_def nth_resolve_at resolve_idem)
qed

lemma processQueue_fields [simp]:
  "oq_queue (processQueue q) = oq_queue q"
  "oq_waiting (processQueue q) = oq_waiting q"
  "oq_limit (processQueue q) = oq_limit q"
  "length (oq_promises (processQueue q)) = length (oq_promises q)"
  using foldl_processQueue_body [of q "slice0 (oq_queue q) (oq_limit q)"]
  by (simp_all add: processQueue_def)

lemma processQueue_promises:
  "a < length (oq_promises q) \<Longrightarrow>
   oq_promises (processQueue q) ! a =
     (if \<exists>i \<in> set (slice0 (oq_queue q) (oq_limit q)). oq_waiting q i = Some a
      then resolve (oq_promises q ! a) True else oq_promises q ! a)"
  using foldl_processQueue_body [of q "slice0 (oq_queue q) (oq_limit q)"]
  by (simp add: processQueue_def)

lemma active_iff: "active q i \<longleftrightarrow> i \<in> set (take (nat (oq_limit q)) (oq_queue q))"
  by (simp add: active_def Let_def indexOf_window)

lemma oq_wf_new: "OrderedQueue_new K = Inr q \<Longrightarrow> oq_wf q \<and> oq_limit q = K \<and> oq_queue q = []"
  by (auto simp: OrderedQueue_new_def oq_wf_def split: if_splits)

lemma enqueue_fields:
  "oq_queue (snd (enqueue q u)) = oq_queue q @ [u]"
  "oq_limit (snd (enqueue q u)) = oq_limit q"
  "oq_waiting (snd (enqueue q u)) = (oq_waiting q)(u \<mapsto> length (oq_promises q))"
  "length (oq_promises (snd (enqueue q u))) = Suc (length (oq_promises q))"
  by (simp_all add: enqueue_def Let_def)

lemma enqueue_promises:
  assumes "a \<le> length (oq_promises q)"
  shows "oq_promises (snd (enqueue q u)) ! a =
     (if \<exists>i \<in> set (slice0 (oq_queue q @ [u]) (oq_limit q)).
           ((oq_waiting q)(u \<mapsto> length (oq_promises q))) i = Some a
      then resolve ((oq_promises q @ [Pending]) ! a) True else (oq_promises q @ [Pending]) ! a)"
  using assms by (simp add: enqueue_def Let_def processQueue_promises)

lemma oq_wf_enqueue:
  assumes wf: "oq_wf q" and fresh: "u \<notin> set (oq_queue q)"
  shows "oq_wf (snd (enqueue q u))"
proof -
  let ?q' = "snd (enqueue q u)"
  let ?n = "length (oq_promises q)"
  from wf have d: "distinct (oq_queue q)" and lim: "1 \<le> oq_limit q"
    and inj: "inj_on (oq_waiting q) (set (oq_queue q))"
    and out: "\<And>i. i \<notin> set (oq_queue q) \<Longrightarrow> oq_waiting q i = None"
    and inn: "\<And>i. i \<in> set (oq_queue q) \<Longrightarrow> \<exists>p. oq_waiting q i = Some p \<and> p < ?n \<and>
        oq_promises q ! p = (if active q i then Resolved True else Pending)"
    by (auto simp: oq_wf_def)
  have sl: "slice0 (oq_queue q @ [u]) (oq_limit q) = take (nat (oq_limit q)) (oq_queue q @ [u])"
    using lim by (simp add: slice0_take)
  have act: "\<And>i. active ?q' i \<longleftrightarrow> i \<in> set (take (nat (oq_limit q)) (oq_queue q @ [u]))"
    by (simp add: active_iff enqueue_fields)
  have old_act: "\<And>i. i \<in> set (oq_queue q) \<Longrightarrow>
      active ?q' i \<longleftrightarrow> active q i"
    using fresh by (auto simp: active_iff enqueue_fields dest: in_set_takeD)
  have inj': "inj_on (oq_waiting ?q') (set (oq_queue ?q'))"
  proof -
    have ne1: "\<And>i. i \<in> set (oq_queue q) \<Longrightarrow> oq_waiting q i \<noteq> Some ?n"
      using inn by fastforce
    then have ne2: "\<And>i. i \<in> set (oq_queue q) \<Longrightarrow> Some ?n \<noteq> oq_waiting q i"
      by fastforce
    show ?thesis using inj fresh ne1 ne2
      by (simp add: enqueue_fields inj_on_def)
  qed
  have main: "\<forall>i \<in> set (oq_queue ?q'). \<exists>p. oq_waiting ?q' i = Some p \<and>
        p < length (oq_promises ?q') \<and>
        oq_promises ?q' ! p = (if active ?q' i then Resolved True else Pending)"
  proof
    fix i assume "i \<in> set (oq_queue ?q')"
    then consider (old) "i \<in> set (oq_queue q)" | (new) "i = u"
      by (auto simp: enqueue_fields)
    then show "\<exists>p. oq_waiting ?q' i = Some p \<and> p < length (oq_promises ?q') \<and>
        oq_promises ?q' ! p = (if active ?q' i then Resolved True else Pending)"
    proof cases
      case old
      then obtain p where p: "oq_waiting q i = Some p" "p < ?n"
        "oq_promises q ! p = (if active q i then Resolved True else Pending)"
        using inn by blast
      have iu: "i \<noteq> u" using old fresh by auto
      have ex: "(\<exists>j \<in> set (take (nat (oq_limit q)) (oq_queue q @ [u])).
           ((oq_waiting q)(u \<mapsto> ?n)) j = Some p) \<longleftrightarrow> active q i"
      proof
        assume "\<exists>j \<in> set (take (nat (oq_limit q)) (oq_queue q @ [u])).
           ((oq_waiting q)(u \<mapsto> ?n)) j = Some p"
        then obtain j where j: "j \<in> set (take (nat (oq_limit q)) (oq_queue q @ [u]))"
          "((oq_waiting q)(u \<mapsto> ?n)) j = Some p" by blast
        have "j \<noteq> u" using j(2) p(2) by auto
        then have "j \<in> set (oq_queue q)" "oq_waiting q j = Some p"
          using j by (auto dest: in_set_takeD)
        then have "j = i" using inj old p(1) by (auto simp: inj_on_def)
        then show "active q i" using j(1) old_act[OF old] act by simp
      next
        assume "active q i"
        then have "i \<in> set (take (nat (oq_limit q)) (oq_queue q @ [u]))"
          using old_act[OF old] act by simp
        then show "\<exists>j \<in> set (take (nat (oq_limit q)) (oq_queue q @ [u])).
           ((oq_waiting q)(u \<mapsto> ?n)) j = Some p"
          using p(1) iu by auto
      qed
      have "oq_promises ?q' ! p = (if active q i then Resolved True else Pending)"
        using p enqueue_promises[of p q u] ex sl
        by (auto simp: nth_append)
      then show ?thesis using p iu old_act[OF old]
        by (auto simp: enqueue_fields)
    next
      case new
      have ex: "(\<exists>j \<in> set (take (nat (oq_limit q)) (oq_queue q @ [u])).
           ((oq_waiting q)(u \<mapsto> ?n)) j = Some ?n) \<longleftrightarrow> active ?q' u"
      proof -
        have "\<And>j. j \<noteq> u \<Longrightarrow> ((oq_waiting q)(u \<mapsto> ?n)) j \<noteq> Some ?n"
          using inn out by (metis fun_upd_apply nat_neq_iff option.distinct(1) option.inject)
        then show ?thesis unfolding act by (metis fun_upd_same)
      qed
      have "oq_promises ?q' ! ?n = (if active ?q' u then Resolved True else Pending)"
        using enqueue_promises[of ?n q u] ex sl by auto
      then show ?thesis using new by (auto simp: enqueue_fields)
    qed
  qed
  show ?thesis
    unfolding oq_wf_def
    using d fresh lim inj' main out
    by (auto simp: enqueue_fields)
qed

lemma dequeue_absent: "i \<notin> set (oq_queue q) \<Longrightarrow> dequeue q i = (False, q)"
  by (simp add: dequeue_def Let_def indexOf_pos_iff)

lemma dequeue_fields:
  assumes "i \<in> set (oq_queue q)"
  shows "fst (dequeue q i) = True"
    "oq_queue (snd (dequeue q i)) = remove1 i (oq_queue q)"
    "oq_limit (snd (dequeue q i)) = oq_limit q"
    "oq_waiting (snd (dequeue q i)) = (oq_waiting q)(i := None)"
    "length (oq_promises (snd (dequeue q i))) = length (oq_promises q)"
  using assms
  by (simp_all add: dequeue_def Let_def indexOf_pos_iff splice1_indexOf split: option.splits)

lemma dequeue_promises:
  assumes "i \<in> set (oq_queue q)" "oq_waiting q i = Some p" "a < length (oq_promises q)"
  shows "oq_promises (snd (dequeue q i)) ! a =
     (if \<exists>j \<in> set (slice0 (remove1 i (oq_queue q)) (oq_limit q)). ((oq_waiting q)(i := None)) j = Some a
      then resolve (resolve_at (oq_promises q) p False ! a) True
      else resolve_at (oq_promises q) p False ! a)"
  using assms
  by (simp add: dequeue_def Let_def indexOf_pos_iff splice1_indexOf processQueue_promises)

lemma oq_wf_dequeue:
  assumes wf: "oq_wf q"
  shows "oq_wf (snd (dequeue q i))"
proof (cases "i \<in> set (oq_queue q)")
  case False
  then show ?thesis using wf by (simp add: dequeue_absent)
next
  case mem: True
  let ?q' = "snd (dequeue q i)"
  let ?n = "length (oq_promises q)"
  let ?K = "nat (oq_limit q)"
  from wf have d: "distinct (oq_queue q)" and lim: "1 \<le> oq_limit q"
    and inj: "inj_on (oq_waiting q) (set (oq_queue q))"
    and out: "\<And>j. j \<notin> set (oq_queue q) \<Longrightarrow> oq_waiting q j = None"
    and inn: "\<And>j. j \<in> set (oq_queue q) \<Longrightarrow> \<exists>p. oq_waiting q j = Some p \<and> p < ?n \<and>
        oq_promises q ! p = (if active q j then Resolved True else Pending)"
    by (auto simp: oq_wf_def)
  obtain pi where pi: "oq_waiting q i = Some pi" "pi < ?n" using inn[OF mem] by blast
  have sl: "slice0 (remove1 i (oq_queue q)) (oq_limit q) = take ?K (remove1 i (oq_queue q))"
    using lim by (simp add: slice0_take)
  have act': "\<And>j. active ?q' j \<longleftrightarrow> j \<in> set (take ?K (remove1 i (oq_queue q)))"
    using mem by (simp add: active_iff dequeue_fields)
  have main: "\<forall>j \<in> set (oq_queue ?q'). \<exists>p. oq_waiting ?q' j = Some p \<and>
        p < length (oq_promises ?q') \<and>
        oq_promises ?q' ! p = (if active ?q' j then Resolved True else Pending)"
  proof
    fix j assume "j \<in> set (oq_queue ?q')"
    then have jq: "j \<in> set (oq_queue q)" and ji: "j \<noteq> i"
      using mem d by (auto simp: dequeue_fields)
    obtain p where p: "oq_waiting q j = Some p" "p < ?n"
        "oq_promises q ! p = (if active q j then Resolved True else Pending)"
      using inn[OF jq] by blast
    have ppi: "p \<noteq> pi" using inj jq mem ji p(1) pi(1) by (auto simp: inj_on_def)
    have keep: "active q j \<Longrightarrow> active ?q' j"
      unfolding act' using ji by (simp add: active_iff take_remove1_subset)
    have ex: "(\<exists>k \<in> set (take ?K (remove1 i (oq_queue q))). ((oq_waiting q)(i := None)) k = Some p)
        \<longleftrightarrow> active ?q' j"
    proof
      assume "\<exists>k \<in> set (take ?K (remove1 i (oq_queue q))). ((oq_waiting q)(i := None)) k = Some p"
      then obtain k where k: "k \<in> set (take ?K (remove1 i (oq_queue q)))"
        "((oq_waiting q)(i := None)) k = Some p" by blast
      have "k \<noteq> i" using k(2) by auto
      moreover have "k \<in> set (oq_queue q)" using k(1) set_remove1_subset[of i "oq_queue q"] by (auto dest!: in_set_takeD)
      ultimately have "k = j" using inj jq p(1) k(2) by (auto simp: inj_on_def)
      then show "active ?q' j" using k(1) act' by simp
    next
      assume "active ?q' j"
      then show "\<exists>k \<in> set (take ?K (remove1 i (oq_queue q))). ((oq_waiting q)(i := None)) k = Some p"
        using act' p(1) ji by auto
    qed
    have "oq_promises ?q' ! p = (if active ?q' j then Resolved True else Pending)"
      using dequeue_promises[OF mem pi(1) p(2)] ex sl p(2,3) ppi keep
      by (auto simp: nth_resolve_at)
    then show "\<exists>p. oq_waiting ?q' j = Some p \<and> p < length (oq_promises ?q') \<and>
        oq_promises ?q' ! p = (if active ?q' j then Resolved True else Pending)"
      using p ji mem by (auto simp: dequeue_fields)
  qed
  have inj': "inj_on (oq_waiting ?q') (set (oq_queue ?q'))"
    using inj mem d by (auto simp: dequeue_fields inj_on_def)
  show ?thesis
    unfolding oq_wf_def
    using d lim inj' main out mem
    by (auto simp: dequeue_fields)
qed

lemma arrivals_append: "arrivals (xs @ ys) = arrivals xs @ arrivals ys"
  by (induction xs rule: arrivals.induct) simp_all

lemma still_enqueued_snoc:
  "still_enqueued (ops @ [op]) =
     (case op of Enqueue u \<Rightarrow> insert u (still_enqueued ops) | Dequeue i \<Rightarrow> still_enqueued ops - {i})"
  by (cases op) (simp_all add: still_enqueued_def)

lemma oq_run_snoc: "oq_run (ops @ [op]) q = oq_step (oq_run ops q) op"
  by (simp add: oq_run_def)

lemma oq_run_inv:
  assumes new: "OrderedQueue_new K = Inr q0" and fresh: "distinct (arrivals ops)"
  shows "oq_wf (oq_run ops q0) \<and> oq_limit (oq_run ops q0) = K \<and>
         oq_queue (oq_run ops q0) = filter (\<lambda>i. i \<in> still_enqueued ops) (arrivals ops)"
  using fresh
proof (induction ops rule: rev_induct)
  case Nil
  then show ?case using oq_wf_new[OF new] by (simp add: oq_run_def still_enqueued_def)
next
  case (snoc op ops)
  let ?q = "oq_run ops q0"
  from snoc.prems have d: "distinct (arrivals ops)" by (simp add: arrivals_append)
  with snoc.IH have wf: "oq_wf ?q" and lim: "oq_limit ?q = K"
    and qu: "oq_queue ?q = filter (\<lambda>i. i \<in> still_enqueued ops) (arrivals ops)" by auto
  show ?case
  proof (cases op)
    case (Enqueue u)
    from snoc.prems Enqueue have fr: "u \<notin> set (arrivals ops)" by (simp add: arrivals_append)
    then have "u \<notin> set (oq_queue ?q)" using qu by simp
    then have "oq_wf (snd (enqueue ?q u))" using wf by (rule oq_wf_enqueue[rotated])
    moreover have "filter (\<lambda>i. i = u \<or> i \<in> still_enqueued ops) (arrivals ops)
        = filter (\<lambda>i. i \<in> still_enqueued ops) (arrivals ops)"
      using fr by (intro filter_cong) auto
    ultimately show ?thesis using Enqueue lim qu
      by (simp add: oq_run_snoc enqueue_fields arrivals_append still_enqueued_snoc)
  next
    case (Dequeue i)
    have wf': "oq_wf (snd (dequeue ?q i))" using wf by (rule oq_wf_dequeue)
    show ?thesis
    proof (cases "i \<in> set (oq_queue ?q)")
      case True
      have "distinct (oq_queue ?q)" using wf by (simp add: oq_wf_def)
      then have "remove1 i (oq_queue ?q) = filter (\<lambda>j. j \<noteq> i) (oq_queue ?q)"
        by (auto simp: distinct_remove1_removeAll removeAll_filter_not_eq intro: filter_cong)
      also have "\<dots> = filter (\<lambda>j. j \<in> still_enqueued ops - {i}) (arrivals ops)"
        unfolding qu by (auto intro: filter_cong)
      finally show ?thesis using Dequeue wf' lim True
        by (simp add: oq_run_snoc dequeue_fields arrivals_append still_enqueued_snoc)
    next
      case False
      then have "filter (\<lambda>j. j \<in> still_enqueued ops - {i}) (arrivals ops) = oq_queue ?q"
        unfolding qu by (auto intro: filter_cong)
      then show ?thesis using Dequeue wf lim False
        by (simp add: oq_run_snoc dequeue_absent arrivals_append still_enqueued_snoc)
    qed
  qed
qed

lemma active_set: "{i. active q i} = set (take (nat (oq_limit q)) (oq_queue q))"
  by (auto simp: active_iff)

lemma oq_wf_outcome:
  assumes "oq_wf q" "i \<in> set (oq_queue q)"
  shows "outcome q (wait q i) = (if active q i then Some True else None)"
proof -
  from assms obtain p where "oq_waiting q i = Some p" "p < length (oq_promises q)"
      "oq_promises q ! p = (if active q i then Resolved True else Pending)"
    by (auto simp: oq_wf_def)
  then show ?thesis by (simp add: wait_def outcome_def)
qed

lemma wait_dequeue_other:
  assumes "a \<in> set (oq_queue q)" "c \<noteq> a"
  shows "wait (snd (dequeue q a)) c = wait q c"
  using assms by (simp add: wait_def dequeue_fields)

text \<open>
  Claim C3. In every state reached from a new queue of window \<open>K\<close> by enqueues (of fresh
  tickets) and dequeues: the queue holds the tickets still enqueued in arrival order; the
  active tickets are exactly the first \<open>K\<close> of them, \<open>min K N\<close> in number; and when an
  active ticket is dequeued while more than \<open>K\<close> are enqueued, the earliest ticket that
  was not active becomes active, and the promise that \<^verbatim>\<open>wait\<close> gave for it before the
  dequeue, pending until then, is resolved true by the dequeue; \<^verbatim>\<open>wait\<close> gives the
  same promise afterwards.
\<close>

theorem C3_active_window:
  assumes new: "OrderedQueue_new K = Inr q0" and fresh: "distinct (arrivals ops)"
  shows "oq_queue (oq_run ops q0) = filter (\<lambda>i. i \<in> still_enqueued ops) (arrivals ops) \<and>
         {i. active (oq_run ops q0) i} = set (take (nat K) (oq_queue (oq_run ops q0))) \<and>
         card {i. active (oq_run ops q0) i} = min (nat K) (length (oq_queue (oq_run ops q0))) \<and>
         (\<forall>a. active (oq_run ops q0) a \<and> nat K < length (oq_queue (oq_run ops q0)) \<longrightarrow>
            find (\<lambda>i. \<not> active (oq_run ops q0) i) (oq_queue (oq_run ops q0))
              = Some (oq_queue (oq_run ops q0) ! nat K) \<and>
            outcome (oq_run ops q0) (wait (oq_run ops q0) (oq_queue (oq_run ops q0) ! nat K)) = None \<and>
            active (snd (dequeue (oq_run ops q0) a)) (oq_queue (oq_run ops q0) ! nat K) \<and>
            outcome (snd (dequeue (oq_run ops q0) a))
              (wait (oq_run ops q0) (oq_queue (oq_run ops q0) ! nat K)) = Some True \<and>
            wait (snd (dequeue (oq_run ops q0) a)) (oq_queue (oq_run ops q0) ! nat K)
              = wait (oq_run ops q0) (oq_queue (oq_run ops q0) ! nat K))"
proof -
  let ?q = "oq_run ops q0"
  from oq_run_inv[OF new fresh] have wf: "oq_wf ?q" and lim: "oq_limit ?q = K"
    and qu: "oq_queue ?q = filter (\<lambda>i. i \<in> still_enqueued ops) (arrivals ops)" by auto
  have d: "distinct (oq_queue ?q)" using wf by (simp add: oq_wf_def)
  have s: "{i. active ?q i} = set (take (nat K) (oq_queue ?q))" using active_set[of ?q] lim by simp
  have c: "card {i. active ?q i} = min (nat K) (length (oq_queue ?q))"
    unfolding s using d by (simp add: distinct_card min.commute)
  have step: "find (\<lambda>i. \<not> active ?q i) (oq_queue ?q) = Some (oq_queue ?q ! nat K) \<and>
      outcome ?q (wait ?q (oq_queue ?q ! nat K)) = None \<and>
      active (snd (dequeue ?q a)) (oq_queue ?q ! nat K) \<and>
      outcome (snd (dequeue ?q a)) (wait ?q (oq_queue ?q ! nat K)) = Some True \<and>
      wait (snd (dequeue ?q a)) (oq_queue ?q ! nat K) = wait ?q (oq_queue ?q ! nat K)"
    if a: "active ?q a" and len: "nat K < length (oq_queue ?q)" for a
  proof -
    let ?c = "oq_queue ?q ! nat K"
    let ?q' = "snd (dequeue ?q a)"
    have cq: "?c \<in> set (oq_queue ?q)" using len by simp
    have f: "find (\<lambda>i. \<not> active ?q i) (oq_queue ?q) = Some ?c"
      using find_first_outside[OF d len] lim by (simp add: active_iff)
    then have nc: "\<not> active ?q ?c" by (auto simp: find_Some_iff)
    have o1: "outcome ?q (wait ?q ?c) = None" using oq_wf_outcome[OF wf cq] nc by simp
    have aq: "a \<in> set (oq_queue ?q)" using a by (auto simp: active_iff dest: in_set_takeD)
    have ac: "?c \<noteq> a" using a nc by auto
    have wf': "oq_wf ?q'" using wf by (rule oq_wf_dequeue)
    have qu': "oq_queue ?q' = remove1 a (oq_queue ?q)" "oq_limit ?q' = K"
      using aq lim by (simp_all add: dequeue_fields)
    have act': "active ?q' ?c"
      using next_in_line[OF d _ len, of a] a lim qu' by (simp add: active_iff)
    then have "?c \<in> set (oq_queue ?q')" by (auto simp: active_iff dest: in_set_takeD)
    then have o2: "outcome ?q' (wait ?q' ?c) = Some True"
      using oq_wf_outcome[OF wf'] act' by simp
    have w: "wait ?q' ?c = wait ?q ?c" using aq ac by (rule wait_dequeue_other)
    show ?thesis using f o1 act' o2 w by simp
  qed
  show ?thesis using qu s c step by blast
qed

lemma scenario_ABC_eval:
  "scenario_ABC = \<lparr>oq_queue = [''A'', ''B'', ''C''],
      oq_waiting = [''A'' \<mapsto> 0, ''B'' \<mapsto> Suc 0, ''C'' \<mapsto> Suc (Suc 0)],
      oq_promises = [Resolved True, Resolved True, Pending], oq_limit = 2,
      oq_emitted = [(''active'', ''A''), (''active'', ''A''), (''active'', ''B''),
                    (''active'', ''A''), (''active'', ''B'')]\<rparr>"
  by (simp add: scenario_ABC_def oq_run_def enqueue_def processQueue_def processQueue_body_def
      slice0_def resolve_at_def OrderedQueue_new_def Let_def)

theorem C3_witness:
  "OrderedQueue_new 2 = Inr (projr (OrderedQueue_new 2)) \<and>
   distinct (arrivals [Enqueue ''A'', Enqueue ''B'', Enqueue ''C'']) \<and>
   oq_queue scenario_ABC = [''A'', ''B'', ''C''] \<and>
   card {i. active scenario_ABC i} = 2 \<and>
   {i. active scenario_ABC i} = {''A'', ''B''} \<and>
   active scenario_ABC ''A'' \<and> nat 2 < length (oq_queue scenario_ABC) \<and>
   outcome scenario_ABC (wait scenario_ABC ''C'') = None \<and>
   active (snd (dequeue scenario_ABC ''A'')) ''C'' \<and>
   outcome (snd (dequeue scenario_ABC ''A'')) (wait scenario_ABC ''C'') = Some True"
proof -
  have n: "OrderedQueue_new 2 = Inr (projr (OrderedQueue_new 2))"
    by (simp add: OrderedQueue_new_def)
  have d: "distinct (arrivals [Enqueue ''A'', Enqueue ''B'', Enqueue ''C''])" by simp
  have q: "oq_queue scenario_ABC = [''A'', ''B'', ''C'']" by (simp add: scenario_ABC_eval)
  have a: "active scenario_ABC ''A''" unfolding scenario_ABC_eval by (simp add: active_def)
  show ?thesis
    using C3_active_window[OF n d] n d q a
    unfolding scenario_ABC_def[symmetric]
    by (simp add: numeral_2_eq_2 still_enqueued_def)
qed

section \<open>OrderedQueue: the scenario with window 2\<close>

text \<open>
  Claim C9, as the code has it. With window 2 and tickets A, B, C enqueued in that order,
  A and B are active and C is not; \<^verbatim>\<open>getPosition\<close> answers 2 for C, its index from 0 (the
  rank 1 among the waiting tickets is the \<^verbatim>\<open>position\<close> that \<^verbatim>\<open>getQueueState\<close> computes,
  index - limit + 1, with -2 and -1 for A and B); \<^verbatim>\<open>dequeue(A)\<close> returns true, and
  afterwards B is still active and C is active, its wait resolved true.
\<close>

theorem C9_scenario:
  "active scenario_ABC ''A'' \<and> active scenario_ABC ''B'' \<and> \<not> active scenario_ABC ''C'' \<and>
   getPosition scenario_ABC ''C'' = 2 \<and>
   map qi_position (qs_queue (getQueueState socketIdMap scenario_ABC socketId)) = [- 2, - 1, 1] \<and>
   qs_activeCount (getQueueState socketIdMap scenario_ABC socketId) = 2 \<and>
   qs_waitingCount (getQueueState socketIdMap scenario_ABC socketId) = 1 \<and>
   fst (dequeue scenario_ABC ''A'') \<and>
   active (snd (dequeue scenario_ABC ''A'')) ''B'' \<and>
   active (snd (dequeue scenario_ABC ''A'')) ''C'' \<and>
   outcome (snd (dequeue scenario_ABC ''A'')) (wait scenario_ABC ''C'') = Some True"
  unfolding scenario_ABC_eval
  by (simp add: dequeue_def processQueue_def processQueue_body_def slice0_def splice1_def
      resolve_at_def Let_def active_def wait_def outcome_def getPosition_def
      getQueueState_def getQueue_def max_oq_def item_position_def upt_rec)

text \<open>The position query of the claim, \<^verbatim>\<open>getPosition\<close>, does not answer 1 for C.\<close>

theorem C9_counterexample: "getPosition scenario_ABC ''C'' \<noteq> 1"
  unfolding scenario_ABC_eval by (simp add: getPosition_def)

section \<open>OrderedQueue: what wait resolves to\<close>

lemma outcome_enqueue:
  assumes "outcome q r = Some b"
  shows "outcome (snd (enqueue q u)) r = Some b"
proof (cases r)
  case (Returned x)
  with assms show ?thesis by (simp add: outcome_def)
next
  case (Awaiting p)
  with assms have p: "p < length (oq_promises q)" "oq_promises q ! p = Resolved b"
    by (auto simp: outcome_def split: if_splits promise.splits)
  then have "oq_promises (snd (enqueue q u)) ! p = Resolved b"
    using enqueue_promises[of p q u] by (auto simp: nth_append)
  then show ?thesis using Awaiting p by (simp add: outcome_def enqueue_fields)
qed

lemma outcome_dequeue:
  assumes "outcome q r = Some b"
  shows "outcome (snd (dequeue q i)) r = Some b"
proof (cases r)
  case (Returned x)
  with assms show ?thesis by (simp add: outcome_def)
next
  case (Awaiting p)
  with assms have p: "p < length (oq_promises q)" "oq_promises q ! p = Resolved b"
    by (auto simp: outcome_def split: if_splits promise.splits)
  have "length (oq_promises (snd (dequeue q i))) = length (oq_promises q) \<and>
        oq_promises (snd (dequeue q i)) ! p = Resolved b"
    using p
    by (auto simp: dequeue_def Let_def processQueue_promises nth_resolve_at split: option.splits)
  then show ?thesis using Awaiting p by (simp add: outcome_def)
qed

lemma outcome_step: "outcome q r = Some b \<Longrightarrow> outcome (oq_step q op) r = Some b"
  by (cases op) (simp_all add: outcome_enqueue outcome_dequeue)

lemma dequeue_waiting_false:
  assumes wf: "oq_wf q" and mem: "i \<in> set (oq_queue q)" and na: "\<not> active q i"
  shows "outcome (snd (dequeue q i)) (wait q i) = Some False"
proof -
  from wf mem na obtain p where p: "oq_waiting q i = Some p" "p < length (oq_promises q)"
      "oq_promises q ! p = Pending"
    by (auto simp: oq_wf_def)
  have "\<not> (\<exists>j \<in> set (slice0 (remove1 i (oq_queue q)) (oq_limit q)).
            ((oq_waiting q)(i := None)) j = Some p)"
  proof
    assume "\<exists>j \<in> set (slice0 (remove1 i (oq_queue q)) (oq_limit q)).
              ((oq_waiting q)(i := None)) j = Some p"
    then obtain j where j: "j \<in> set (slice0 (remove1 i (oq_queue q)) (oq_limit q))"
      "((oq_waiting q)(i := None)) j = Some p" by blast
    have ji: "j \<noteq> i" using j(2) by auto
    have "j \<in> set (remove1 i (oq_queue q))"
      using j(1) by (auto simp: slice0_def dest: in_set_takeD split: if_splits)
    then have "j \<in> set (oq_queue q)" using set_remove1_subset[of i "oq_queue q"] by auto
    moreover have "inj_on (oq_waiting q) (set (oq_queue q))" using wf by (simp add: oq_wf_def)
    ultimately show False using ji j(2) p(1) mem by (auto simp: inj_on_def)
  qed
  then have "oq_promises (snd (dequeue q i)) ! p = Resolved False"
    using dequeue_promises[OF mem p(1) p(2)] p by (simp add: nth_resolve_at)
  then show ?thesis using p mem by (simp add: wait_def outcome_def dequeue_fields)
qed

lemma oq_run_append: "oq_run (ops @ ops') q = oq_run ops' (oq_run ops q)"
  by (simp add: oq_run_def)

lemma queue_subset_arrivals:
  assumes new: "OrderedQueue_new K = Inr q0" and fresh: "distinct (arrivals ops)"
  shows "set (oq_queue (oq_run ops q0)) \<subseteq> set (arrivals ops)"
  using oq_run_inv[OF new fresh] by auto

lemma same_promise:
  assumes new: "OrderedQueue_new K = Inr q0" and fresh: "distinct (arrivals (ops @ ops'))"
    and i: "i \<in> set (oq_queue (oq_run ops q0))"
    and i': "i \<in> set (oq_queue (oq_run (ops @ ops') q0))"
  shows "oq_waiting (oq_run (ops @ ops') q0) i = oq_waiting (oq_run ops q0) i"
  using fresh i'
proof (induction ops' rule: rev_induct)
  case Nil
  then show ?case by simp
next
  case (snoc op ops')
  let ?q = "oq_run (ops @ ops') q0"
  from snoc.prems(1) have d: "distinct (arrivals (ops @ ops'))"
    by (auto simp: arrivals_append)
  have d0: "distinct (arrivals ops)" using d by (simp add: arrivals_append)
  have ia: "i \<in> set (arrivals ops)" using queue_subset_arrivals[OF new d0] i by auto
  have wf: "oq_wf ?q" using oq_run_inv[OF new d] by simp
  have st: "oq_run (ops @ ops' @ [op]) q0 = oq_step ?q op"
    using oq_run_snoc[of "ops @ ops'" op q0] by simp
  show ?case
  proof (cases op)
    case (Enqueue u)
    have "u \<notin> set (arrivals (ops @ ops'))" using snoc.prems(1) Enqueue
      by (simp add: arrivals_append)
    then have ui: "u \<noteq> i" using ia by (auto simp: arrivals_append)
    then have "i \<in> set (oq_queue ?q)" using snoc.prems(2) Enqueue st
      by (simp add: enqueue_fields)
    then have "oq_waiting ?q i = oq_waiting (oq_run ops q0) i" using snoc.IH[OF d] by simp
    then show ?thesis using Enqueue st ui by (simp add: enqueue_fields)
  next
    case (Dequeue j)
    show ?thesis
    proof (cases "j \<in> set (oq_queue ?q)")
      case False
      then show ?thesis using Dequeue st snoc.IH[OF d] snoc.prems(2)
        by (simp add: dequeue_absent)
    next
      case True
      have dq: "distinct (oq_queue ?q)" using wf by (simp add: oq_wf_def)
      have m: "i \<in> set (remove1 j (oq_queue ?q))" using snoc.prems(2) Dequeue st True
        by (simp add: dequeue_fields)
      then have ji: "j \<noteq> i" using dq by auto
      have "i \<in> set (oq_queue ?q)" using m set_remove1_subset[of j "oq_queue ?q"] by auto
      then have "oq_waiting ?q i = oq_waiting (oq_run ops q0) i" using snoc.IH[OF d] by simp
      then show ?thesis using Dequeue st True ji by (simp add: dequeue_fields)
    qed
  qed
qed

text \<open>
  Claim C6, as the code has it. In every state reached from a new queue by enqueues (of
  fresh tickets) and dequeues: for an enqueued ticket, \<^verbatim>\<open>wait\<close> gives its promise, which
  is resolved true when the ticket is active and is pending otherwise, and then
  dequeuing the ticket resolves it false. As long as the ticket stays enqueued, whatever
  is enqueued or dequeued meanwhile, \<^verbatim>\<open>wait\<close> gives the same promise: the promise a
  caller got earlier is resolved true once the ticket is active, is pending while it is
  not, and then dequeuing the ticket resolves it false. For a ticket that is not
  enqueued, \<^verbatim>\<open>wait\<close> returns false at once; and an outcome a caller has seen is the
  same after any further call of \<^verbatim>\<open>enqueue\<close> or \<^verbatim>\<open>dequeue\<close>.
\<close>

theorem C6_wait_outcome:
  assumes new: "OrderedQueue_new K = Inr q0" and fresh: "distinct (arrivals (ops @ ops'))"
  shows "(\<forall>i \<in> set (oq_queue (oq_run ops q0)).
            (if active (oq_run ops q0) i
             then outcome (oq_run ops q0) (wait (oq_run ops q0) i) = Some True
             else outcome (oq_run ops q0) (wait (oq_run ops q0) i) = None \<and>
                  outcome (snd (dequeue (oq_run ops q0) i)) (wait (oq_run ops q0) i)
                    = Some False)) \<and>
         (\<forall>i \<in> set (oq_queue (oq_run ops q0)) \<inter> set (oq_queue (oq_run ops' (oq_run ops q0))).
            wait (oq_run ops' (oq_run ops q0)) i = wait (oq_run ops q0) i \<and>
            (if active (oq_run ops' (oq_run ops q0)) i
             then outcome (oq_run ops' (oq_run ops q0)) (wait (oq_run ops q0) i) = Some True
             else outcome (oq_run ops' (oq_run ops q0)) (wait (oq_run ops q0) i) = None \<and>
                  outcome (snd (dequeue (oq_run ops' (oq_run ops q0)) i)) (wait (oq_run ops q0) i)
                    = Some False)) \<and>
         (\<forall>i. i \<notin> set (oq_queue (oq_run ops q0)) \<longrightarrow>
            wait (oq_run ops q0) i = Returned False) \<and>
         (\<forall>r b op. outcome (oq_run ops q0) r = Some b \<longrightarrow>
            outcome (oq_step (oq_run ops q0) op) r = Some b)"
proof -
  let ?q = "oq_run ops q0"
  let ?q' = "oq_run ops' ?q"
  have d0: "distinct (arrivals ops)" using fresh by (simp add: arrivals_append)
  from oq_run_inv[OF new d0] have wf: "oq_wf ?q" by simp
  have q': "?q' = oq_run (ops @ ops') q0" by (simp add: oq_run_append)
  from oq_run_inv[OF new fresh] have wf': "oq_wf ?q'" unfolding q' by simp
  have a: "\<forall>i \<in> set (oq_queue ?q).
            (if active ?q i then outcome ?q (wait ?q i) = Some True
             else outcome ?q (wait ?q i) = None \<and>
                  outcome (snd (dequeue ?q i)) (wait ?q i) = Some False)"
    using oq_wf_outcome[OF wf] dequeue_waiting_false[OF wf] by simp
  have h: "wait ?q' i = wait ?q i \<and>
      (if active ?q' i then outcome ?q' (wait ?q i) = Some True
       else outcome ?q' (wait ?q i) = None \<and>
            outcome (snd (dequeue ?q' i)) (wait ?q i) = Some False)"
    if i: "i \<in> set (oq_queue ?q) \<inter> set (oq_queue ?q')" for i
  proof -
    have i1: "i \<in> set (oq_queue ?q)" and i2: "i \<in> set (oq_queue ?q')" using i by auto
    have "oq_waiting ?q' i = oq_waiting ?q i"
      unfolding q' using same_promise[OF new fresh i1] i2 by (simp add: q')
    then have w: "wait ?q' i = wait ?q i" by (simp add: wait_def)
    show ?thesis
      using oq_wf_outcome[OF wf' i2] dequeue_waiting_false[OF wf' i2] w by simp
  qed
  have b: "\<forall>i. i \<notin> set (oq_queue ?q) \<longrightarrow> wait ?q i = Returned False"
    using wf by (simp add: oq_wf_def wait_def)
  show ?thesis using a h b outcome_step by blast
qed

theorem C6_witness:
  "OrderedQueue_new 2 = Inr (projr (OrderedQueue_new 2)) \<and>
   distinct (arrivals ([Enqueue ''A'', Enqueue ''B'', Enqueue ''C''] @ [Dequeue ''A''])) \<and>
   ''A'' \<in> set (oq_queue scenario_ABC) \<and> active scenario_ABC ''A'' \<and>
   outcome scenario_ABC (wait scenario_ABC ''A'') = Some True \<and>
   ''C'' \<in> set (oq_queue scenario_ABC) \<and> \<not> active scenario_ABC ''C'' \<and>
   outcome scenario_ABC (wait scenario_ABC ''C'') = None \<and>
   outcome (snd (dequeue scenario_ABC ''C'')) (wait scenario_ABC ''C'') = Some False \<and>
   ''C'' \<in> set (oq_queue (oq_run [Dequeue ''A''] scenario_ABC)) \<and>
   active (oq_run [Dequeue ''A''] scenario_ABC) ''C'' \<and>
   wait (oq_run [Dequeue ''A''] scenario_ABC) ''C'' = wait scenario_ABC ''C'' \<and>
   outcome (oq_run [Dequeue ''A''] scenario_ABC) (wait scenario_ABC ''C'') = Some True \<and>
   ''Z'' \<notin> set (oq_queue scenario_ABC) \<and> wait scenario_ABC ''Z'' = Returned False \<and>
   outcome (oq_step scenario_ABC (Dequeue ''B'')) (wait scenario_ABC ''A'') = Some True"
proof -
  have n: "OrderedQueue_new 2 = Inr (projr (OrderedQueue_new 2))"
    by (simp add: OrderedQueue_new_def)
  have d: "distinct (arrivals ([Enqueue ''A'', Enqueue ''B'', Enqueue ''C''] @ [Dequeue ''A'']))"
    by simp
  have q: "oq_queue scenario_ABC = [''A'', ''B'', ''C'']" by (simp add: scenario_ABC_eval)
  have a: "active scenario_ABC ''A''" "\<not> active scenario_ABC ''C''"
    unfolding scenario_ABC_eval by (simp_all add: active_def)
  have o: "outcome scenario_ABC (wait scenario_ABC ''A'') = Some True"
    unfolding scenario_ABC_eval by (simp add: wait_def outcome_def)
  have q': "oq_queue (oq_run [Dequeue ''A''] scenario_ABC) = [''B'', ''C'']"
    "active (oq_run [Dequeue ''A''] scenario_ABC) ''C''"
    unfolding scenario_ABC_eval
    by (simp_all add: oq_run_def dequeue_def processQueue_def processQueue_body_def slice0_def
        splice1_def resolve_at_def Let_def active_def)
  note T = C6_wait_outcome[OF n d, unfolded scenario_ABC_def[symmetric]]
  have m: "outcome (oq_step scenario_ABC (Dequeue ''B'')) (wait scenario_ABC ''A'') = Some True"
    using T o by blast
  have c: "outcome scenario_ABC (wait scenario_ABC ''C'') = None \<and>
        outcome (snd (dequeue scenario_ABC ''C'')) (wait scenario_ABC ''C'') = Some False \<and>
        wait scenario_ABC ''Z'' = Returned False"
    using T q a by simp
  have "''C'' \<in> set (oq_queue scenario_ABC) \<inter> set (oq_queue (oq_run [Dequeue ''A''] scenario_ABC))"
    using q q' by simp
  then have h: "wait (oq_run [Dequeue ''A''] scenario_ABC) ''C'' = wait scenario_ABC ''C'' \<and>
      outcome (oq_run [Dequeue ''A''] scenario_ABC) (wait scenario_ABC ''C'') = Some True"
    using T q'(2) by auto
  show ?thesis using n d q a o m c q' h by simp
qed

text \<open>
  The claim as stated fails for a ticket that was admitted and then dequeued: with
  window 1, the wait of A has resolved true after \<^verbatim>\<open>enqueue\<close>, and a call of \<^verbatim>\<open>wait\<close>
  after \<^verbatim>\<open>dequeue(A)\<close> gives false.
\<close>

theorem C6_counterexample:
  "outcome (oq_run [Enqueue ''A''] (projr (OrderedQueue_new 1)))
     (wait (oq_run [Enqueue ''A''] (projr (OrderedQueue_new 1))) ''A'') = Some True \<and>
   outcome (oq_run [Enqueue ''A'', Dequeue ''A''] (projr (OrderedQueue_new 1)))
     (wait (oq_run [Enqueue ''A'', Dequeue ''A''] (projr (OrderedQueue_new 1))) ''A'')
     = Some False"
  by (simp add: oq_run_def enqueue_def dequeue_def processQueue_def processQueue_body_def
      slice0_def splice1_def resolve_at_def OrderedQueue_new_def Let_def wait_def outcome_def)

section \<open>The constructors and a limit below 1\<close>

text \<open>
  Claim C10. With a limit of zero or less, the constructors of SerialQueue and of
  ParalelQueue give an instance whose limit is 1, and the constructor of OrderedQueue
  throws.
\<close>

theorem C10_limits:
  "limit \<le> 0 \<Longrightarrow>
     sq_limit (SerialQueue_new limit :: 'a SerialQueue) = 1 \<and>
     pq_limit (ParalelQueue_new limit :: ('a, 'r) ParalelQueue) = 1 \<and>
     OrderedQueue_new limit = Inl (Error ''Limit cannot be less than 1.'')"
  by (simp add: SerialQueue_new_def ParalelQueue_new_def OrderedQueue_new_def)

theorem C10_witness:
  "(0::int) \<le> 0 \<and>
   sq_limit (SerialQueue_new 0 :: nat SerialQueue) = 1 \<and>
   pq_limit (ParalelQueue_new 0 :: (nat, nat) ParalelQueue) = 1 \<and>
   OrderedQueue_new 0 = Inl (Error ''Limit cannot be less than 1.'')"
  using C10_limits[of 0, where 'a = nat and 'r = nat] by simp

section \<open>StreamPiper: one pass, three views\<close>















lemma sp_run_snoc: "sp_run digest (es @ [e]) s = sp_step digest (sp_run digest es s) e"
  by (simp add: sp_run_def)






lemma failed_step:
  assumes "src_failed (sp_sourceStream s) \<noteq> None"
  shows "src_failed (sp_sourceStream (sp_step digest s e)) \<noteq> None \<and>
         sp_headerPromise (sp_step digest s e) = sp_headerPromise s \<and>
         sp_hashPromise (sp_step digest s e) = sp_hashPromise s"
  using assms
  by (cases e)
     (auto simp: getHeader_def getHeader_resume_def getStream_def getHash_def initialize_def
        resume_def pause_def src_live_def Let_def split: promise.splits option.splits list.splits)

lemma failed_run:
  "src_failed (sp_sourceStream s) \<noteq> None \<Longrightarrow>
   src_failed (sp_sourceStream (sp_run digest es s)) \<noteq> None \<and>
   sp_headerPromise (sp_run digest es s) = sp_headerPromise s \<and>
   sp_hashPromise (sp_run digest es s) = sp_hashPromise s"
proof (induction es rule: rev_induct)
  case Nil
  then show ?case by (simp add: sp_run_def)
next
  case (snoc e es)
  then show ?case using failed_step[of "sp_run digest es s" digest e]
    by (simp add: sp_run_snoc del: sp_step.simps)
qed

lemma failed_step_errors:
  assumes "src_failed (sp_sourceStream s) \<noteq> None"
  shows "out_errors (sp_outputStream (sp_step digest s e)) = out_errors (sp_outputStream s)"
  using assms
  by (cases e)
     (auto simp: getHeader_def getHeader_resume_def getStream_def getHash_def initialize_def
        resume_def pause_def src_live_def Let_def split: promise.splits option.splits list.splits)

lemma failed_run_errors:
  "src_failed (sp_sourceStream s) \<noteq> None \<Longrightarrow>
   out_errors (sp_outputStream (sp_run digest es s)) = out_errors (sp_outputStream s)"
proof (induction es rule: rev_induct)
  case Nil
  then show ?case by (simp add: sp_run_def)
next
  case (snoc e es)
  then show ?case
    using failed_step_errors[of "sp_run digest es s" digest e] failed_run[of s digest es]
    by (simp add: sp_run_snoc del: sp_step.simps)
qed

text \<open>
  Claim C4, as the code has it. When the source emits an error, the error is emitted on
  the output stream if the piper is initialised, and is not if it is not: the listener of
  \<^verbatim>\<open>'error'\<close> is attached by \<^verbatim>\<open>_initialize\<close>, which the first call of an accessor
  runs, and an error emitted before that is not emitted on the output later either. In
  both cases neither promise is settled by the error, nor by anything that follows: after
  any further run the header promise and the hash promise are what they were before the
  error, so a wait that was pending stays pending.
\<close>

theorem C4_source_error:
  assumes "src_failed (sp_sourceStream s) = None" and "\<not> src_ended (sp_sourceStream s)"
  shows "out_errors (sp_outputStream (sp_run digest es (sp_step digest s (SrcError err))))
           = (if sp_isInitialized s then out_errors (sp_outputStream s) @ [err]
              else out_errors (sp_outputStream s)) \<and>
         sp_headerPromise (sp_run digest es (sp_step digest s (SrcError err))) = sp_headerPromise s \<and>
         sp_hashPromise (sp_run digest es (sp_step digest s (SrcError err))) = sp_hashPromise s"
proof -
  let ?s' = "sp_step digest s (SrcError err)"
  have f: "src_failed (sp_sourceStream ?s') \<noteq> None" and
    o: "out_errors (sp_outputStream ?s')
          = (if sp_isInitialized s then out_errors (sp_outputStream s) @ [err]
             else out_errors (sp_outputStream s))" and
    p: "sp_headerPromise ?s' = sp_headerPromise s" "sp_hashPromise ?s' = sp_hashPromise s"
    using assms by (simp_all add: on_error_def Let_def)
  show ?thesis using failed_run[OF f, of digest es] failed_run_errors[OF f, of digest es] o p
    by simp
qed

lemmas sp_eval = sp_run_def StreamPiper_new_def Readable_from_def pause_def resume_def
  initialize_def getHeader_def getHeader_resume_def getStream_def getHash_def on_data_def
  on_end_def on_error_def capture_header_def src_live_def Let_def slice0_def resolve_def
  HEADER_SIZE_def seen_def


text \<open>
  The claim as stated fails: a \<^verbatim>\<open>getHeader\<close> is waiting, the source hands out three
  bytes and then fails. The error reaches the output, the partial header is captured,
  and both promises are pending, also after everything else that can be tried.
\<close>

theorem C4_counterexample:
  "sp_headerWaits (sp_run (\<lambda>bs. []) [GetHeader, SrcData, SrcError (Error ''reset'')]
      (StreamPiper_new (Readable_from [[1, 2, 3], [4]]) 4)) = 1 \<and>
   sp_header (sp_run (\<lambda>bs. []) [GetHeader, SrcData, SrcError (Error ''reset'')]
      (StreamPiper_new (Readable_from [[1, 2, 3], [4]]) 4)) = [1, 2, 3] \<and>
   out_errors (sp_outputStream (sp_run (\<lambda>bs. []) [GetHeader, SrcData, SrcError (Error ''reset'')]
      (StreamPiper_new (Readable_from [[1, 2, 3], [4]]) 4))) = [Error ''reset''] \<and>
   sp_headerPromise (sp_run (\<lambda>bs. [])
      [GetHeader, SrcData, SrcError (Error ''reset''), SrcData, SrcEnd, GetHeaderResume, GetHash]
      (StreamPiper_new (Readable_from [[1, 2, 3], [4]]) 4)) = Pending \<and>
   sp_hashPromise (sp_run (\<lambda>bs. [])
      [GetHeader, SrcData, SrcError (Error ''reset''), SrcData, SrcEnd, GetHeaderResume, GetHash]
      (StreamPiper_new (Readable_from [[1, 2, 3], [4]]) 4)) = Pending"
  by (simp add: sp_eval)

theorem C4_witness:
  "src_failed (sp_sourceStream (sp_run (\<lambda>bs. []) [GetHeader, SrcData]
      (StreamPiper_new (Readable_from [[1, 2, 3], [4]]) 4))) = None \<and>
   \<not> src_ended (sp_sourceStream (sp_run (\<lambda>bs. []) [GetHeader, SrcData]
      (StreamPiper_new (Readable_from [[1, 2, 3], [4]]) 4))) \<and>
   sp_isInitialized (sp_run (\<lambda>bs. []) [GetHeader, SrcData]
      (StreamPiper_new (Readable_from [[1, 2, 3], [4]]) 4)) \<and>
   out_errors (sp_outputStream (sp_run (\<lambda>bs. []) [SrcData, SrcEnd, GetHash]
      (sp_step (\<lambda>bs. []) (sp_run (\<lambda>bs. []) [GetHeader, SrcData]
      (StreamPiper_new (Readable_from [[1, 2, 3], [4]]) 4)) (SrcError (Error ''reset'')))))
     = [Error ''reset''] \<and>
   sp_headerPromise (sp_run (\<lambda>bs. []) [SrcData, SrcEnd, GetHash]
      (sp_step (\<lambda>bs. []) (sp_run (\<lambda>bs. []) [GetHeader, SrcData]
      (StreamPiper_new (Readable_from [[1, 2, 3], [4]]) 4)) (SrcError (Error ''reset''))))
     = Pending \<and>
   src_failed (sp_sourceStream (StreamPiper_new (Readable_from [[1, 2, 3], [4]]) 4)) = None \<and>
   \<not> src_ended (sp_sourceStream (StreamPiper_new (Readable_from [[1, 2, 3], [4]]) 4)) \<and>
   \<not> sp_isInitialized (StreamPiper_new (Readable_from [[1, 2, 3], [4]]) 4) \<and>
   out_errors (sp_outputStream (sp_run (\<lambda>bs. []) [GetHeader, GetStream, SrcData, SrcEnd, GetHash]
      (sp_step (\<lambda>bs. []) (StreamPiper_new (Readable_from [[1, 2, 3], [4]]) 4)
        (SrcError (Error ''reset''))))) = [] \<and>
   sp_hashPromise (sp_run (\<lambda>bs. []) [GetHeader, GetStream, SrcData, SrcEnd, GetHash]
      (sp_step (\<lambda>bs. []) (StreamPiper_new (Readable_from [[1, 2, 3], [4]]) 4)
        (SrcError (Error ''reset'')))) = Pending"
proof -
  let ?n = "StreamPiper_new (Readable_from [[1, 2, 3], [4]]) 4"
  let ?s = "sp_run (\<lambda>bs. []) [GetHeader, SrcData] ?n"
  have a: "src_failed (sp_sourceStream ?s) = None" "\<not> src_ended (sp_sourceStream ?s)"
    by (simp_all add: sp_eval)
  have i: "sp_isInitialized ?s" by (simp add: sp_eval)
  have p: "sp_headerPromise ?s = Pending" "out_errors (sp_outputStream ?s) = []"
    by (simp_all add: sp_eval)
  have b: "src_failed (sp_sourceStream ?n) = None" "\<not> src_ended (sp_sourceStream ?n)"
    by (simp_all add: sp_eval)
  have j: "\<not> sp_isInitialized ?n" "sp_hashPromise ?n = Pending"
    "out_errors (sp_outputStream ?n) = []"
    by (simp_all add: sp_eval)
  show ?thesis
    using C4_source_error[OF a, of "\<lambda>bs. []" "[SrcData, SrcEnd, GetHash]" "Error ''reset''"]
      C4_source_error[OF b, of "\<lambda>bs. []" "[GetHeader, GetStream, SrcData, SrcEnd, GetHash]"
        "Error ''reset''"] a i p b j
    by simp
qed

section \<open>SerialQueue: one at a time, in order\<close>

lemma accepted_snoc [simp]:
  "accepted (log @ [(x, True)]) = accepted log @ [x]"
  "accepted (log @ [(x, False)]) = accepted log"
  by (simp_all add: accepted_def)


lemma sq_inv_pending [simp]:
  "sq_inv (s\<lparr>sq_pending := x\<rparr>) = sq_inv s"
  "sq_inv (s\<lparr>sq_pushed := y\<rparr>) = sq_inv s"
  by (simp_all add: sq_inv_def)

lemma sq_fifo_pending [simp]:
  "sq_fifo (s\<lparr>sq_pending := x\<rparr>) = sq_fifo s"
  "sq_fifo (s\<lparr>sq_pushed := y\<rparr>) = sq_fifo s"
  by (simp_all add: sq_fifo_def)

lemma sq_shut_pending [simp]:
  "sq_shut (s\<lparr>sq_pending := x\<rparr>) = sq_shut s"
  "sq_shut (s\<lparr>sq_pushed := y\<rparr>) = sq_shut s"
  by (simp_all add: sq_shut_def)

































section \<open>ParalelQueue: results in submission order\<close>

lemma set_phase_fields [simp]:
  "pq_items (set_phase s i ph) = pq_items s"
  "pq_limit (set_phase s i ph) = pq_limit s"
  "pq_curr_working (set_phase s i ph) = pq_curr_working s"
  "pq_push_order (set_phase s i ph) = pq_push_order s"
  "pq_work_order (set_phase s i ph) = pq_work_order s"
  "pq_outp_order (set_phase s i ph) = pq_outp_order s"
  "pq_working (set_phase s i ph) = pq_working s"
  "pq_clearing (set_phase s i ph) = pq_clearing s"
  "pq_open (set_phase s i ph) = pq_open s"
  "pq_work_waits (set_phase s i ph) = pq_work_waits s"
  "pq_output (set_phase s i ph) = pq_output s"
  "pq_finished (set_phase s i ph) = pq_finished s"
  "pq_returned (set_phase s i ph) = pq_returned s"
  "length (pq_calls (set_phase s i ph)) = length (pq_calls s)"
  by (simp_all add: set_phase_def)

lemma map_update_same: "(map f xs)[i := f (xs ! i)] = map f xs"
  by (cases "i < length xs") (simp_all add: list_update_same_conv list_update_beyond)

lemma set_phase_orders [simp]:
  "map fst (pq_calls (set_phase s i ph)) = map fst (pq_calls s)"
  "map (\<lambda>c. fst (snd c)) (pq_calls (set_phase s i ph)) = map (\<lambda>c. fst (snd c)) (pq_calls s)"
  using map_update_same[of fst "pq_calls s" i]
    map_update_same[of "\<lambda>c. fst (snd c)" "pq_calls s" i]
  by (simp_all add: set_phase_def map_update)

lemma phase_of_set_phase:
  "phase_of (set_phase s i ph) j = (if j = i \<and> i < length (pq_calls s) then ph else phase_of s j)"
  by (cases "i < length (pq_calls s)") (simp_all add: phase_of_def set_phase_def nth_list_update list_update_beyond)

lemma order_of_set_phase [simp]: "order_of (set_phase s i ph) j = order_of s j"
  by (cases "i < length (pq_calls s)") (simp_all add: order_of_def set_phase_def nth_list_update list_update_beyond)

lemma phase_of_other [simp]:
  "phase_of (s\<lparr>pq_items := a1\<rparr>) = phase_of s"
  "phase_of (s\<lparr>pq_curr_working := a2\<rparr>) = phase_of s"
  "phase_of (s\<lparr>pq_push_order := a3\<rparr>) = phase_of s"
  "phase_of (s\<lparr>pq_work_order := a4\<rparr>) = phase_of s"
  "phase_of (s\<lparr>pq_outp_order := a5\<rparr>) = phase_of s"
  "phase_of (s\<lparr>pq_working := a6\<rparr>) = phase_of s"
  "phase_of (s\<lparr>pq_clearing := a7\<rparr>) = phase_of s"
  "phase_of (s\<lparr>pq_open := a8\<rparr>) = phase_of s"
  "phase_of (s\<lparr>pq_work_waits := a9\<rparr>) = phase_of s"
  "phase_of (s\<lparr>pq_output := b1\<rparr>) = phase_of s"
  "phase_of (s\<lparr>pq_finished := b2\<rparr>) = phase_of s"
  "phase_of (s\<lparr>pq_returned := b3\<rparr>) = phase_of s"
  by (simp_all add: phase_of_def fun_eq_iff)

lemma order_of_other [simp]:
  "order_of (s\<lparr>pq_items := a1\<rparr>) = order_of s"
  "order_of (s\<lparr>pq_curr_working := a2\<rparr>) = order_of s"
  "order_of (s\<lparr>pq_push_order := a3\<rparr>) = order_of s"
  "order_of (s\<lparr>pq_work_order := a4\<rparr>) = order_of s"
  "order_of (s\<lparr>pq_outp_order := a5\<rparr>) = order_of s"
  "order_of (s\<lparr>pq_working := a6\<rparr>) = order_of s"
  "order_of (s\<lparr>pq_clearing := a7\<rparr>) = order_of s"
  "order_of (s\<lparr>pq_open := a8\<rparr>) = order_of s"
  "order_of (s\<lparr>pq_work_waits := a9\<rparr>) = order_of s"
  "order_of (s\<lparr>pq_output := b1\<rparr>) = order_of s"
  "order_of (s\<lparr>pq_finished := b2\<rparr>) = order_of s"
  "order_of (s\<lparr>pq_returned := b3\<rparr>) = order_of s"
  by (simp_all add: order_of_def fun_eq_iff)

lemma shape_order_of:
  assumes "pq_shape A s" "i < pq_work_order s"
  shows "order_of s i = i" "i < length (pq_calls s)"
proof -
  from assms have m: "map fst (pq_calls s) = [0 ..< pq_work_order s]" by (simp add: pq_shape_def)
  then have l: "length (pq_calls s) = pq_work_order s" by (metis length_map length_upt diff_zero)
  show "i < length (pq_calls s)" using l assms by simp
  then have "fst (pq_calls s ! i) = map fst (pq_calls s) ! i" by simp
  then show "order_of s i = i" using m assms by (simp add: order_of_def)
qed

lemma shape_length: "pq_shape A s \<Longrightarrow> length (pq_calls s) = pq_work_order s"
  by (metis pq_shape_def length_map length_upt diff_zero)

lemma shape_has: "pq_shape A s \<Longrightarrow> has s k \<longleftrightarrow> pq_outp_order s \<le> k \<and> k < pq_push_order s"
  by (simp add: pq_shape_def has_def)

text \<open>The activation at its turn test: it sleeps on, or it calls the output callback.\<close>

lemma turn_sleep:
  assumes "pq_shape A s" "i < pq_work_order s" "pq_outp_order s \<noteq> i"
  shows "callback_turn s i r = set_phase s i (Turn r)"
  using assms shape_order_of[OF assms(1,2)]
  by (simp add: callback_turn_def pq_shape_def)

lemma turn_output:
  assumes "pq_shape A s" "i < pq_work_order s" "pq_outp_order s = i"
  shows "callback_turn s i r = set_phase (s\<lparr>pq_output := pq_output s @ [(i, r)]\<rparr>) i Output"
proof -
  have "has s i" using assms(2,3) shape_has[OF assms(1), of i] assms(1)[unfolded pq_shape_def]
    by auto
  then show ?thesis using assms shape_order_of[OF assms(1,2)]
    by (simp add: callback_turn_def pq_shape_def)
qed

lemma shape_set_phase:
  assumes "pq_shape A s" "i < pq_work_order s" "phase_ok (pq_outp_order s) i ph"
  shows "pq_shape A (set_phase s i ph)"
  using assms by (simp add: pq_shape_def phase_of_set_phase)

lemma shape_output_log [simp]: "pq_shape A (s\<lparr>pq_output := x\<rparr>) = pq_shape A s"
  by (simp add: pq_shape_def)

lemma shape_finished_log [simp]: "pq_shape A (s\<lparr>pq_finished := x\<rparr>) = pq_shape A s"
  by (simp add: pq_shape_def)

lemma shape_returned_log [simp]: "pq_shape A (s\<lparr>pq_returned := x\<rparr>) = pq_shape A s"
  by (simp add: pq_shape_def)

lemma shape_turn:
  assumes sh: "pq_shape A s" and i: "i < pq_work_order s"
    and ph: "phase_of s i = Handler \<or> phase_of s i = Turn r'"
  shows "pq_shape A (callback_turn s i r)"
proof -
  have ok: "phase_ok (pq_outp_order s) i (phase_of s i)" using sh i by (simp add: pq_shape_def)
  then have le: "pq_outp_order s \<le> i" using ph by (auto simp: phase_ok_def)
  show ?thesis
  proof (cases "pq_outp_order s = i")
    case True
    have "pq_shape A (set_phase (s\<lparr>pq_output := pq_output s @ [(i, r)]\<rparr>) i Output)"
      by (rule shape_set_phase) (use sh i True in \<open>simp_all add: phase_ok_def\<close>)
    then show ?thesis using turn_output[OF sh i True] by simp
  next
    case False
    have "pq_shape A (set_phase s i (Turn r))"
      by (rule shape_set_phase) (use sh i le in \<open>simp_all add: phase_ok_def\<close>)
    then show ?thesis using turn_sleep[OF sh i False] by simp
  qed
qed

lemma shape_finish:
  assumes sh: "pq_shape A s" and i: "i < pq_work_order s" and ph: "phase_of s i = Output"
  shows "pq_shape A (callback_finish s i)"
proof -
  have io: "i = pq_outp_order s" using sh i ph by (auto simp: pq_shape_def phase_ok_def)
  have oi: "order_of s i = i" using shape_order_of[OF sh i] by simp
  have il: "i < length (pq_calls s)" using shape_order_of[OF sh i] by simp
  have ph': "\<forall>j < pq_work_order s. phase_ok (Suc (pq_outp_order s)) j
      (if j = i then Ended else phase_of s j)"
  proof (intro allI impI)
    fix j assume j: "j < pq_work_order s"
    then have ok: "phase_ok (pq_outp_order s) j (phase_of s j)" using sh by (simp add: pq_shape_def)
    show "phase_ok (Suc (pq_outp_order s)) j (if j = i then Ended else phase_of s j)"
      using ok io ph by (cases "phase_of s j") (auto simp: phase_ok_def)
  qed
  show ?thesis
    using sh i io oi il ph'
    by (auto simp: pq_shape_def callback_finish_def phase_of_set_phase delete_conv')
qed

lemma shape_other [simp]:
  "pq_shape A (s\<lparr>pq_working := x1\<rparr>) = pq_shape A s"
  "pq_shape A (s\<lparr>pq_work_waits := x2\<rparr>) = pq_shape A s"
  "pq_shape A (s\<lparr>pq_curr_working := x3\<rparr>) = pq_shape A s"
  by (simp_all add: pq_shape_def)

lemma logs_other [simp]:
  "pq_logs (s\<lparr>pq_working := x1\<rparr>) = pq_logs s"
  "pq_logs (s\<lparr>pq_work_waits := x2\<rparr>) = pq_logs s"
  "pq_logs (s\<lparr>pq_curr_working := x3\<rparr>) = pq_logs s"
  "pq_logs (s\<lparr>pq_returned := x4\<rparr>) = pq_logs s"
  "pq_logs (s\<lparr>pq_items := x5\<rparr>) = pq_logs s"
  "pq_logs (s\<lparr>pq_push_order := x6\<rparr>) = pq_logs s"
  by (simp_all add: pq_logs_def)

text \<open>The handler of an activation settles.\<close>

lemma shape_handler_settles:
  assumes sh: "pq_shape A s"
  shows "pq_shape A (handler_settles s i r)"
proof (cases "i < length (pq_calls s) \<and> phase_of s i = Handler")
  case False
  then show ?thesis using sh by (auto simp: handler_settles_def)
next
  case True
  then have i: "i < pq_work_order s" and ph: "phase_of s i = Handler"
    using shape_length[OF sh] by auto
  let ?s1 = "s\<lparr>pq_finished := pq_finished s @ [(order_of s i, r)]\<rparr>"
  have sh1: "pq_shape A ?s1" using sh by simp
  have i1: "i < pq_work_order ?s1" using i by simp
  show ?thesis
  proof (cases r)
    case (Returns v)
    have "pq_shape A (callback_turn ?s1 i (Some v))"
      by (rule shape_turn[OF sh1 i1]) (use ph in simp)
    then show ?thesis using True Returns by (simp add: handler_settles_def Let_def)
  next
    case (Throws e)
    have "phase_ok (pq_outp_order s) i (phase_of s i)" using sh i by (simp add: pq_shape_def)
    then have "phase_ok (pq_outp_order ?s1) i (Rejected e)" using ph by (simp add: phase_ok_def)
    then have "pq_shape A (set_phase ?s1 i (Rejected e))" by (rule shape_set_phase[OF sh1 i1])
    then show ?thesis using True Throws by (simp add: handler_settles_def Let_def)
  qed
qed

lemma shape_turn_poll: "pq_shape A s \<Longrightarrow> pq_shape A (turn_poll s i)"
  using shape_turn[of A s i] shape_length[of A s]
  by (auto simp: turn_poll_def split: phase.splits)

lemma shape_output_done: "pq_shape A s \<Longrightarrow> pq_shape A (output_done s i)"
  using shape_finish[of A s i] shape_length[of A s]
  by (auto simp: output_done_def)

text \<open>\<^verbatim>\<open>work\<close> hands the next order to a new activation.\<close>

lemma dispatch_item:
  assumes sh: "pq_shape A s" and w: "pq_work_order s < pq_push_order s"
  shows "map_of (pq_items s) (pq_work_order s) = Some (pq_work_order s, A ! pq_work_order s)"
  using assms by (simp add: pq_shape_def)

lemma callback_start_open:
  "pq_open s \<Longrightarrow> callback_start s k a = s\<lparr>pq_calls := pq_calls s @ [(k, a, Handler)]\<rparr>"
  by (simp add: callback_start_def Let_def)

lemma phase_of_dispatched:
  assumes "pq_shape A s"
  shows "j < pq_work_order s \<Longrightarrow> phase_of (dispatched A s) j = phase_of s j"
    and "phase_of (dispatched A s) (pq_work_order s) = Handler"
  using shape_length[OF assms]
  by (simp_all add: phase_of_def dispatched_def nth_append)

lemma shape_dispatched:
  assumes sh: "pq_shape A s" and w: "pq_work_order s < pq_push_order s"
  shows "pq_shape A (dispatched A s)"
proof -
  have l: "length (pq_calls s) = pq_work_order s" using sh by (rule shape_length)
  have ph: "\<forall>i < Suc (pq_work_order s). phase_ok (pq_outp_order s) i (phase_of (dispatched A s) i)"
  proof (intro allI impI)
    fix i assume "i < Suc (pq_work_order s)"
    then consider "i = pq_work_order s" | "i < pq_work_order s" by linarith
    then show "phase_ok (pq_outp_order s) i (phase_of (dispatched A s) i)"
    proof cases
      case 1
      then show ?thesis using sh phase_of_dispatched(2)[OF sh]
        by (simp add: phase_ok_def pq_shape_def)
    next
      case 2
      then show ?thesis using sh phase_of_dispatched(1)[OF sh, of i]
        by (simp add: pq_shape_def)
    qed
  qed
  have t: "take (Suc (pq_work_order s)) A = take (pq_work_order s) A @ [A ! pq_work_order s]"
    using sh w by (simp add: take_Suc_conv_app_nth pq_shape_def)
  have f: "pq_outp_order (dispatched A s) = pq_outp_order s"
    "pq_work_order (dispatched A s) = Suc (pq_work_order s)"
    "pq_push_order (dispatched A s) = pq_push_order s"
    "pq_open (dispatched A s) = pq_open s" "pq_clearing (dispatched A s) = pq_clearing s"
    "pq_items (dispatched A s) = pq_items s"
    "pq_calls (dispatched A s) = pq_calls s @ [(pq_work_order s, A ! pq_work_order s, Handler)]"
    by (simp_all add: dispatched_def)
  show ?thesis
    unfolding pq_shape_def f using sh w ph t
    by (simp add: pq_shape_def)
qed

lemma logs_dispatched:
  assumes sh: "pq_shape A s" and lg: "pq_logs s"
  shows "pq_logs (dispatched A s)"
proof -
  have f: "pq_outp_order (dispatched A s) = pq_outp_order s"
    "pq_work_order (dispatched A s) = Suc (pq_work_order s)"
    "pq_output (dispatched A s) = pq_output s"
    "pq_finished (dispatched A s) = pq_finished s"
    by (simp_all add: dispatched_def)
  have p: "\<And>j. j < pq_work_order s \<Longrightarrow> phase_of (dispatched A s) j = phase_of s j"
    "phase_of (dispatched A s) (pq_work_order s) = Handler"
    using phase_of_dispatched[OF sh] by blast+
  have le: "pq_outp_order s \<le> pq_work_order s" using sh by (simp add: pq_shape_def)
  have e: "(pq_outp_order s < Suc (pq_work_order s) \<and>
            phase_of (dispatched A s) (pq_outp_order s) = Output)
       \<longleftrightarrow> (pq_outp_order s < pq_work_order s \<and> phase_of s (pq_outp_order s) = Output)"
    using p le by (cases "pq_outp_order s = pq_work_order s") auto
  have t: "\<forall>i < Suc (pq_work_order s). \<forall>r. phase_of (dispatched A s) i = Turn r \<longrightarrow>
        (\<exists>v. r = Some v \<and> (i, Returns v) \<in> set (pq_finished s))"
  proof (intro allI impI)
    fix i r assume i: "i < Suc (pq_work_order s)" and t: "phase_of (dispatched A s) i = Turn r"
    then have "i < pq_work_order s" using p(2) by (cases "i = pq_work_order s") auto
    then show "\<exists>v. r = Some v \<and> (i, Returns v) \<in> set (pq_finished s)"
      using lg t p(1) by (auto simp: pq_logs_def)
  qed
  have g: "\<forall>(k, r) \<in> set (pq_finished s). k < Suc (pq_work_order s) \<and>
        phase_of (dispatched A s) k \<noteq> Handler \<and>
        (\<forall>e. r = Throws e \<longrightarrow> phase_of (dispatched A s) k = Rejected e)"
    using lg p(1) by (fastforce simp: pq_logs_def)
  show ?thesis
    unfolding pq_logs_def f e using lg t g
    by (simp add: pq_logs_def)
qed

lemma work_loop_stop:
  "\<not> (pq_working s \<and> 0 < length (pq_items s) \<and> pq_work_order s < pq_push_order s) \<Longrightarrow>
   work_loop_pq s = s\<lparr>pq_working := False\<rparr>"
  using work_loop_pq.simps[of s] by auto

lemma work_loop_dispatch:
  assumes sh: "pq_shape A s"
    and c: "pq_working s \<and> 0 < length (pq_items s) \<and> pq_work_order s < pq_push_order s"
  shows "work_loop_pq s =
     (if pq_limit s \<le> pq_curr_working s + 1
      then (dispatched A s)\<lparr>pq_work_waits := pq_work_waits s + 1\<rparr>
      else work_loop_pq (dispatched A s))"
proof -
  have o: "pq_open s" using sh by (simp add: pq_shape_def)
  have m: "map_of (pq_items s) (pq_work_order s) = Some (pq_work_order s, A ! pq_work_order s)"
    using dispatch_item[OF sh] c by simp
  show ?thesis
    using work_loop_pq.simps[of s] c m o
    by (simp add: callback_start_open dispatched_def Let_def)
qed

lemma work_loop_keeps:
  "pq_shape A s \<Longrightarrow> pq_logs s \<Longrightarrow>
   pq_shape A (work_loop_pq s) \<and> pq_logs (work_loop_pq s)"
proof (induction s rule: work_loop_pq.induct)
  case (1 s)
  show ?case
  proof (cases "pq_working s \<and> 0 < length (pq_items s) \<and> pq_work_order s < pq_push_order s")
    case False
    then show ?thesis using "1.prems" work_loop_stop[of s] by simp
  next
    case True
    have o: "pq_open s" using "1.prems" by (simp add: pq_shape_def)
    have m: "map_of (pq_items s) (pq_work_order s) = Some (pq_work_order s, A ! pq_work_order s)"
      using dispatch_item[OF "1.prems"(1)] True by simp
    have d: "callback_start (s\<lparr>pq_work_order := pq_work_order s + 1,
              pq_curr_working := pq_curr_working s + 1\<rparr>)
           (fst (pq_work_order s, A ! pq_work_order s)) (snd (pq_work_order s, A ! pq_work_order s))
         = dispatched A s"
      using o by (simp add: callback_start_open dispatched_def)
    have shd: "pq_shape A (dispatched A s)" using shape_dispatched[OF "1.prems"(1)] True by simp
    have lgd: "pq_logs (dispatched A s)" using logs_dispatched[OF "1.prems"] by simp
    show ?thesis
    proof (cases "pq_limit s \<le> pq_curr_working s + 1")
      case w: True
      then show ?thesis using work_loop_dispatch[OF "1.prems"(1) True] shd lgd by simp
    next
      case w: False
      have "\<not> (pq_open (dispatched A s) \<and> pq_limit (dispatched A s) \<le> pq_curr_working (dispatched A s))"
        using w by (simp add: dispatched_def)
      then have "pq_shape A (work_loop_pq (dispatched A s)) \<and> pq_logs (work_loop_pq (dispatched A s))"
        using "1.IH"(2)[OF True m refl d[symmetric]] shd lgd by simp
      then show ?thesis using work_loop_dispatch[OF "1.prems"(1) True] w by simp
    qed
  qed
qed

lemma set_phase_twice: "set_phase (set_phase s i a) i b = set_phase s i b"
  by (cases "i < length (pq_calls s)") (simp_all add: set_phase_def list_update_beyond)

lemma set_phase_output: "(set_phase s i a)\<lparr>pq_output := x\<rparr> = set_phase (s\<lparr>pq_output := x\<rparr>) i a"
  by (simp add: set_phase_def)

lemma pq_logsI:
  assumes "map fst (pq_output t) =
       [0 ..< (if pq_outp_order t < pq_work_order t \<and> phase_of t (pq_outp_order t) = Output
               then Suc (pq_outp_order t) else pq_outp_order t)]"
    and "\<And>k r. (k, r) \<in> set (pq_output t) \<Longrightarrow>
           \<exists>v. r = Some v \<and> (k, Returns v) \<in> set (pq_finished t)"
    and "\<And>i r. i < pq_work_order t \<Longrightarrow> phase_of t i = Turn r \<Longrightarrow>
           \<exists>v. r = Some v \<and> (i, Returns v) \<in> set (pq_finished t)"
    and "distinct (map fst (pq_finished t))"
    and "\<And>k r. (k, r) \<in> set (pq_finished t) \<Longrightarrow> k < pq_work_order t \<and>
           phase_of t k \<noteq> Handler \<and> (\<forall>e. r = Throws e \<longrightarrow> phase_of t k = Rejected e)"
  shows "pq_logs t"
  unfolding pq_logs_def using assms by blast

lemma pq_logsD:
  assumes "pq_logs t"
  shows "map fst (pq_output t) =
       [0 ..< (if pq_outp_order t < pq_work_order t \<and> phase_of t (pq_outp_order t) = Output
               then Suc (pq_outp_order t) else pq_outp_order t)]"
    and "\<And>k r. (k, r) \<in> set (pq_output t) \<Longrightarrow>
           \<exists>v. r = Some v \<and> (k, Returns v) \<in> set (pq_finished t)"
    and "\<And>i r. i < pq_work_order t \<Longrightarrow> phase_of t i = Turn r \<Longrightarrow>
           \<exists>v. r = Some v \<and> (i, Returns v) \<in> set (pq_finished t)"
    and "distinct (map fst (pq_finished t))"
    and "\<And>k r. (k, r) \<in> set (pq_finished t) \<Longrightarrow> k < pq_work_order t \<and>
           phase_of t k \<noteq> Handler \<and> (\<forall>e. r = Throws e \<longrightarrow> phase_of t k = Rejected e)"
  using assms unfolding pq_logs_def by blast+

text \<open>An activation at its turn test, holding the value its handler returned.\<close>

lemma logs_turn_poll:
  assumes sh: "pq_shape A s" and lg: "pq_logs s" and i: "i < pq_work_order s"
    and ph: "phase_of s i = Turn r"
  shows "pq_logs (callback_turn s i r)"
proof -
  note L = pq_logsD[OF lg]
  have il: "i < length (pq_calls s)" using shape_length[OF sh] i by simp
  obtain v where v: "r = Some v" "(i, Returns v) \<in> set (pq_finished s)"
    using L(3)[OF i ph] by blast
  have nothrow: "\<And>e. (i, Throws e) \<notin> set (pq_finished s)"
    using eq_key_imp_eq_value[OF L(4) v(2)] by blast
  show ?thesis
  proof (cases "pq_outp_order s = i")
    case False
    have eq: "callback_turn s i r = set_phase s i (Turn r)" by (rule turn_sleep[OF sh i False])
    show ?thesis unfolding eq
    proof (rule pq_logsI)
      show "map fst (pq_output (set_phase s i (Turn r))) =
        [0 ..< (if pq_outp_order (set_phase s i (Turn r)) < pq_work_order (set_phase s i (Turn r)) \<and>
                   phase_of (set_phase s i (Turn r)) (pq_outp_order (set_phase s i (Turn r))) = Output
                then Suc (pq_outp_order (set_phase s i (Turn r)))
                else pq_outp_order (set_phase s i (Turn r)))]"
        using L(1) False by (simp add: phase_of_set_phase)
    next
      fix k r' assume "(k, r') \<in> set (pq_output (set_phase s i (Turn r)))"
      then show "\<exists>v. r' = Some v \<and> (k, Returns v) \<in> set (pq_finished (set_phase s i (Turn r)))"
        using L(2) by simp
    next
      fix j r' assume "j < pq_work_order (set_phase s i (Turn r))"
        "phase_of (set_phase s i (Turn r)) j = Turn r'"
      then show "\<exists>v. r' = Some v \<and> (j, Returns v) \<in> set (pq_finished (set_phase s i (Turn r)))"
        using L(3)[of j r'] v by (auto simp: phase_of_set_phase split: if_splits)
    next
      show "distinct (map fst (pq_finished (set_phase s i (Turn r))))" using L(4) by simp
    next
      fix k r' assume "(k, r') \<in> set (pq_finished (set_phase s i (Turn r)))"
      then show "k < pq_work_order (set_phase s i (Turn r)) \<and>
           phase_of (set_phase s i (Turn r)) k \<noteq> Handler \<and>
           (\<forall>e. r' = Throws e \<longrightarrow> phase_of (set_phase s i (Turn r)) k = Rejected e)"
        using L(5)[of k r'] nothrow by (auto simp: phase_of_set_phase)
    qed
  next
    case True
    let ?t = "set_phase (s\<lparr>pq_output := pq_output s @ [(i, r)]\<rparr>) i Output"
    have eq: "callback_turn s i r = ?t" by (rule turn_output[OF sh i True])
    have before: "map fst (pq_output s) = [0 ..< i]" using L(1) True ph by simp
    show ?thesis unfolding eq
    proof (rule pq_logsI)
      show "map fst (pq_output ?t) =
        [0 ..< (if pq_outp_order ?t < pq_work_order ?t \<and> phase_of ?t (pq_outp_order ?t) = Output
                then Suc (pq_outp_order ?t) else pq_outp_order ?t)]"
        using before True i il by (simp add: phase_of_set_phase)
    next
      fix k r' assume "(k, r') \<in> set (pq_output ?t)"
      then show "\<exists>v. r' = Some v \<and> (k, Returns v) \<in> set (pq_finished ?t)"
        using L(2)[of k r'] v by auto
    next
      fix j r' assume "j < pq_work_order ?t" "phase_of ?t j = Turn r'"
      then show "\<exists>v. r' = Some v \<and> (j, Returns v) \<in> set (pq_finished ?t)"
        using L(3)[of j r'] by (auto simp: phase_of_set_phase split: if_splits)
    next
      show "distinct (map fst (pq_finished ?t))" using L(4) by simp
    next
      fix k r' assume "(k, r') \<in> set (pq_finished ?t)"
      then show "k < pq_work_order ?t \<and> phase_of ?t k \<noteq> Handler \<and>
           (\<forall>e. r' = Throws e \<longrightarrow> phase_of ?t k = Rejected e)"
        using L(5)[of k r'] nothrow by (auto simp: phase_of_set_phase)
    qed
  qed
qed

text \<open>The handler of an activation settles: the activation goes to its turn test with the
  value, or is rejected with the error.\<close>

lemma logs_settle:
  assumes sh: "pq_shape A s" and lg: "pq_logs s" and i: "i < pq_work_order s"
    and ph: "phase_of s i = Handler"
    and new: "ph' = Turn (Some v) \<and> r = Returns v \<or> ph' = Rejected e \<and> r = Throws e"
  shows "pq_logs (set_phase (s\<lparr>pq_finished := pq_finished s @ [(i, r)]\<rparr>) i ph')"
proof -
  note L = pq_logsD[OF lg]
  let ?t = "set_phase (s\<lparr>pq_finished := pq_finished s @ [(i, r)]\<rparr>) i ph'"
  have il: "i < length (pq_calls s)" using shape_length[OF sh] i by simp
  have fresh: "i \<notin> fst ` set (pq_finished s)" using L(5) ph by force
  have no: "ph' \<noteq> Output" "ph' \<noteq> Handler" using new by auto
  show ?thesis
  proof (rule pq_logsI)
    show "map fst (pq_output ?t) =
      [0 ..< (if pq_outp_order ?t < pq_work_order ?t \<and> phase_of ?t (pq_outp_order ?t) = Output
              then Suc (pq_outp_order ?t) else pq_outp_order ?t)]"
      using L(1) ph no by (auto simp: phase_of_set_phase)
  next
    fix k r' assume "(k, r') \<in> set (pq_output ?t)"
    then show "\<exists>v. r' = Some v \<and> (k, Returns v) \<in> set (pq_finished ?t)"
      using L(2)[of k r'] by auto
  next
    fix j r' assume "j < pq_work_order ?t" "phase_of ?t j = Turn r'"
    then show "\<exists>v. r' = Some v \<and> (j, Returns v) \<in> set (pq_finished ?t)"
      using L(3)[of j r'] new il by (auto simp: phase_of_set_phase split: if_splits)
  next
    show "distinct (map fst (pq_finished ?t))" using L(4) fresh by simp
  next
    fix k r' assume "(k, r') \<in> set (pq_finished ?t)"
    then show "k < pq_work_order ?t \<and> phase_of ?t k \<noteq> Handler \<and>
         (\<forall>e. r' = Throws e \<longrightarrow> phase_of ?t k = Rejected e)"
      using L(5)[of k r'] new i il fresh no
      by (auto simp: phase_of_set_phase rev_image_eqI)
  qed
qed

lemma logs_finish:
  assumes sh: "pq_shape A s" and lg: "pq_logs s" and i: "i < pq_work_order s"
    and ph: "phase_of s i = Output"
  shows "pq_logs (callback_finish s i)"
proof -
  note L = pq_logsD[OF lg]
  let ?t = "callback_finish s i"
  have il: "i < length (pq_calls s)" using shape_length[OF sh] i by simp
  have io: "pq_outp_order s = i" using sh i ph by (auto simp: pq_shape_def phase_ok_def)
  have nx: "\<not> (Suc i < pq_work_order s \<and> phase_of s (Suc i) = Output)"
    using sh io by (auto simp: pq_shape_def phase_ok_def)
  have o: "map fst (pq_output s) = [0 ..< Suc i]" using L(1) io i ph by simp
  have f: "pq_output ?t = pq_output s" "pq_finished ?t = pq_finished s"
    "pq_work_order ?t = pq_work_order s" "pq_outp_order ?t = Suc i"
    "\<And>j. phase_of ?t j = (if j = i then Ended else phase_of s j)"
    using io il by (simp_all add: callback_finish_def phase_of_set_phase)
  show ?thesis
  proof (rule pq_logsI)
    show "map fst (pq_output ?t) =
      [0 ..< (if pq_outp_order ?t < pq_work_order ?t \<and> phase_of ?t (pq_outp_order ?t) = Output
              then Suc (pq_outp_order ?t) else pq_outp_order ?t)]"
      unfolding f using o nx by simp
  next
    fix k r' assume "(k, r') \<in> set (pq_output ?t)"
    then show "\<exists>v. r' = Some v \<and> (k, Returns v) \<in> set (pq_finished ?t)"
      unfolding f using L(2)[of k r'] by simp
  next
    fix j r' assume "j < pq_work_order ?t" "phase_of ?t j = Turn r'"
    then show "\<exists>v. r' = Some v \<and> (j, Returns v) \<in> set (pq_finished ?t)"
      unfolding f using L(3)[of j r'] by (auto split: if_splits)
  next
    show "distinct (map fst (pq_finished ?t))" unfolding f using L(4) by simp
  next
    fix k r' assume "(k, r') \<in> set (pq_finished ?t)"
    then show "k < pq_work_order ?t \<and> phase_of ?t k \<noteq> Handler \<and>
         (\<forall>e. r' = Throws e \<longrightarrow> phase_of ?t k = Rejected e)"
      unfolding f using L(5)[of k r'] ph by auto
  qed
qed

lemma logs_handler_settles:
  assumes sh: "pq_shape A s" and lg: "pq_logs s"
  shows "pq_logs (handler_settles s i r)"
proof (cases "i < length (pq_calls s) \<and> phase_of s i = Handler")
  case False
  then show ?thesis using lg by (auto simp: handler_settles_def)
next
  case True
  then have i: "i < pq_work_order s" and ph: "phase_of s i = Handler"
    using shape_length[OF sh] by auto
  have oi: "order_of s i = i" using shape_order_of[OF sh i] by simp
  let ?s1 = "s\<lparr>pq_finished := pq_finished s @ [(i, r)]\<rparr>"
  have sh1: "pq_shape A ?s1" using sh by simp
  have i1: "i < pq_work_order ?s1" using i by simp
  have le: "pq_outp_order s \<le> i" using sh i ph by (auto simp: pq_shape_def phase_ok_def)
  show ?thesis
  proof (cases r)
    case (Throws e)
    have "pq_logs (set_phase ?s1 i (Rejected e))"
      by (rule logs_settle[OF sh lg i ph]) (use Throws in simp)
    then show ?thesis using True Throws oi by (simp add: handler_settles_def Let_def)
  next
    case (Returns v)
    let ?t = "set_phase ?s1 i (Turn (Some v))"
    have lt: "pq_logs ?t" by (rule logs_settle[OF sh lg i ph]) (use Returns in simp)
    have sht: "pq_shape A ?t"
      by (rule shape_set_phase[OF sh1 i1]) (use le in \<open>simp add: phase_ok_def\<close>)
    have "pq_logs (callback_turn ?s1 i (Some v))"
    proof (cases "pq_outp_order s = i")
      case False
      then show ?thesis using turn_sleep[OF sh1 i1, of "Some v"] lt by simp
    next
      case o: True
      have it: "i < pq_work_order ?t" using i by simp
      have pt: "phase_of ?t i = Turn (Some v)"
        using shape_order_of(2)[OF sh i] by (simp add: phase_of_set_phase)
      have ot: "pq_outp_order ?t = i" using o by simp
      have "callback_turn ?t i (Some v) = callback_turn ?s1 i (Some v)"
        using turn_output[OF sht it ot, of "Some v"] turn_output[OF sh1 i1, of "Some v"] o
        by (simp add: set_phase_output set_phase_twice)
      then show ?thesis using logs_turn_poll[OF sht lt it pt] by simp
    qed
    then show ?thesis using True Returns oi by (simp add: handler_settles_def Let_def)
  qed
qed

lemma logs_turn_poll_event: "pq_shape A s \<Longrightarrow> pq_logs s \<Longrightarrow> pq_logs (turn_poll s i)"
  using logs_turn_poll[of A s i] shape_length[of A s]
  by (auto simp: turn_poll_def split: phase.splits)

lemma logs_output_done: "pq_shape A s \<Longrightarrow> pq_logs s \<Longrightarrow> pq_logs (output_done s i)"
  using logs_finish[of A s i] shape_length[of A s]
  by (auto simp: output_done_def)

lemma callback_start_returned [simp]:
  "pq_returned (callback_start s k a) = pq_returned s"
  by (simp add: callback_start_def callback_turn_def callback_finish_def Let_def)

lemma work_loop_returned [simp]: "pq_returned (work_loop_pq s) = pq_returned s"
proof (induction s rule: work_loop_pq.induct)
  case (1 s)
  show ?case
  proof (cases "pq_working s \<and> 0 < length (pq_items s) \<and> pq_work_order s < pq_push_order s")
    case False
    then show ?thesis using work_loop_stop[of s] by simp
  next
    case True
    show ?thesis
    proof (cases "map_of (pq_items s) (pq_work_order s)")
      case None
      then show ?thesis using True "1.IH"(1) work_loop_pq.simps[of s] by simp
    next
      case (Some item)
      let ?s2 = "callback_start (s\<lparr>pq_work_order := pq_work_order s + 1,
              pq_curr_working := pq_curr_working s + 1\<rparr>) (fst item) (snd item)"
      show ?thesis
      proof (cases "pq_open ?s2 \<and> pq_limit ?s2 \<le> pq_curr_working ?s2")
        case w: True
        then show ?thesis using True Some work_loop_pq.simps[of s] by (simp add: Let_def)
      next
        case w: False
        have "pq_returned (work_loop_pq ?s2) = pq_returned ?s2"
          using "1.IH"(2)[OF True Some refl refl w] .
        then show ?thesis using True Some w work_loop_pq.simps[of s] by (simp add: Let_def)
      qed
    qed
  qed
qed

lemma shape_work_start:
  "pq_shape A s \<Longrightarrow> pq_shape A (s\<lparr>pq_working := True, pq_clearing := False\<rparr>)"
  by (simp add: pq_shape_def)

lemma logs_clearing [simp]: "pq_logs (s\<lparr>pq_clearing := x\<rparr>) = pq_logs s"
  by (simp add: pq_logs_def)

lemma shape_pushed:
  assumes sh: "pq_shape A s"
  shows "pq_shape (A @ [x])
     (s\<lparr>pq_items := AList.update (pq_push_order s) (pq_push_order s, x) (pq_items s),
        pq_push_order := pq_push_order s + 1\<rparr>)"
proof -
  have p: "pq_push_order s = length A" and w: "pq_work_order s \<le> length A"
    and o: "pq_outp_order s \<le> length A"
    using sh by (auto simp: pq_shape_def)
  have m: "\<forall>k. map_of (AList.update (length A) (length A, x) (pq_items s)) k =
      (if pq_outp_order s \<le> k \<and> k < Suc (length A) then Some (k, (A @ [x]) ! k) else None)"
    using sh o by (auto simp: pq_shape_def update_conv' nth_append)
  show ?thesis
    using sh m w unfolding pq_shape_def by (simp add: p)
qed

lemma inv_push:
  assumes inv: "pq_inv s"
  shows "pq_inv (push_pq s x)"
proof -
  let ?A = "accepted (pq_returned s)"
  from inv have sh: "pq_shape ?A s" and lg: "pq_logs s" by (simp_all add: pq_inv_def)
  have o: "pq_open s" using sh by (simp add: pq_shape_def)
  let ?s2 = "s\<lparr>pq_items := AList.update (pq_push_order s) (pq_push_order s, x) (pq_items s),
        pq_push_order := pq_push_order s + 1\<rparr>"
  have sh2: "pq_shape (?A @ [x]) ?s2" by (rule shape_pushed[OF sh])
  have lg2: "pq_logs ?s2" using lg by simp
  let ?s3 = "if \<not> pq_working ?s2 then work_pq ?s2 else ?s2"
  have k: "pq_shape (?A @ [x]) ?s3 \<and> pq_logs ?s3 \<and> pq_returned ?s3 = pq_returned s"
  proof (cases "pq_working ?s2")
    case True
    then show ?thesis using sh2 lg2 by simp
  next
    case False
    have "pq_shape (?A @ [x]) (?s2\<lparr>pq_working := True, pq_clearing := False\<rparr>)"
      by (rule shape_work_start[OF sh2])
    moreover have "pq_logs (?s2\<lparr>pq_working := True, pq_clearing := False\<rparr>)"
      using lg2 by simp
    ultimately have "pq_shape (?A @ [x]) (work_pq ?s2) \<and> pq_logs (work_pq ?s2)"
      unfolding work_pq_def by (rule work_loop_keeps)
    then show ?thesis using False by (simp add: work_pq_def)
  qed
  have e: "push_pq s x = ?s3\<lparr>pq_returned := pq_returned ?s3 @ [(x, True)]\<rparr>"
    using o by (simp add: push_pq_def Let_def)
  show ?thesis
    unfolding e pq_inv_def using k by (simp add: accepted_def)
qed

lemma inv_work_poll: "pq_inv s \<Longrightarrow> pq_inv (work_poll s)"
  using work_loop_keeps[of "accepted (pq_returned s)" "s\<lparr>pq_work_waits := pq_work_waits s - 1\<rparr>"]
  by (auto simp: pq_inv_def work_poll_def)

lemma handler_settles_returned [simp]: "pq_returned (handler_settles s i r) = pq_returned s"
  by (cases r)
     (simp_all add: handler_settles_def callback_turn_def callback_finish_def Let_def)

lemma turn_poll_returned [simp]: "pq_returned (turn_poll s i) = pq_returned s"
  by (simp add: turn_poll_def callback_turn_def callback_finish_def split: phase.splits)

lemma output_done_returned [simp]: "pq_returned (output_done s i) = pq_returned s"
  by (simp add: output_done_def callback_finish_def)

lemma inv_step:
  assumes "pq_inv s" "e \<noteq> PqClear" "e \<noteq> PqClose"
  shows "pq_inv (pq_step s e)"
proof (cases e)
  case (PqPush x)
  then show ?thesis using assms inv_push by simp
next
  case PqWorkPoll
  then show ?thesis using assms inv_work_poll by simp
next
  case (PqFinish i r)
  then show ?thesis
    using assms shape_handler_settles[of "accepted (pq_returned s)" s i r]
      logs_handler_settles[of "accepted (pq_returned s)" s i r]
    by (simp add: pq_inv_def)
next
  case (PqTurnPoll i)
  then show ?thesis
    using assms shape_turn_poll[of "accepted (pq_returned s)" s i]
      logs_turn_poll_event[of "accepted (pq_returned s)" s i]
    by (simp add: pq_inv_def)
next
  case (PqOutputDone i)
  then show ?thesis
    using assms shape_output_done[of "accepted (pq_returned s)" s i]
      logs_output_done[of "accepted (pq_returned s)" s i]
    by (simp add: pq_inv_def)
qed (use assms in simp_all)

lemma pq_run_snoc: "pq_run (es @ [e]) s = pq_step (pq_run es s) e"
  by (simp add: pq_run_def)

lemma inv_new: "pq_inv (ParalelQueue_new limit)"
  by (simp add: pq_inv_def pq_shape_def pq_logs_def ParalelQueue_new_def accepted_def)

lemma inv_run: "undisturbed es \<Longrightarrow> pq_inv (pq_run es (ParalelQueue_new limit))"
proof (induction es rule: rev_induct)
  case Nil
  then show ?case by (simp add: pq_run_def inv_new)
next
  case (snoc e es)
  then have "pq_inv (pq_run es (ParalelQueue_new limit))" "e \<noteq> PqClear" "e \<noteq> PqClose"
    by (auto simp: undisturbed_def)
  then show ?case unfolding pq_run_snoc by (rule inv_step)
qed

lemma callback_start_finished [simp]:
  "pq_finished (callback_start s k a) = pq_finished s"
  by (simp add: callback_start_def callback_turn_def callback_finish_def Let_def)

lemma work_loop_finished [simp]: "pq_finished (work_loop_pq s) = pq_finished s"
proof (induction s rule: work_loop_pq.induct)
  case (1 s)
  show ?case
  proof (cases "pq_working s \<and> 0 < length (pq_items s) \<and> pq_work_order s < pq_push_order s")
    case False
    then show ?thesis using work_loop_stop[of s] by simp
  next
    case True
    show ?thesis
    proof (cases "map_of (pq_items s) (pq_work_order s)")
      case None
      then show ?thesis using True "1.IH"(1) work_loop_pq.simps[of s] by simp
    next
      case (Some item)
      let ?s2 = "callback_start (s\<lparr>pq_work_order := pq_work_order s + 1,
              pq_curr_working := pq_curr_working s + 1\<rparr>) (fst item) (snd item)"
      show ?thesis
      proof (cases "pq_open ?s2 \<and> pq_limit ?s2 \<le> pq_curr_working ?s2")
        case w: True
        then show ?thesis using True Some work_loop_pq.simps[of s] by (simp add: Let_def)
      next
        case w: False
        have "pq_finished (work_loop_pq ?s2) = pq_finished ?s2"
          using "1.IH"(2)[OF True Some refl refl w] .
        then show ?thesis using True Some w work_loop_pq.simps[of s] by (simp add: Let_def)
      qed
    qed
  qed
qed

lemma finished_step: "set (pq_finished s) \<subseteq> set (pq_finished (pq_step s e))"
proof (cases e)
  case (PqFinish i r)
  then show ?thesis
    by (cases r)
       (auto simp: handler_settles_def callback_turn_def callback_finish_def Let_def)
qed (auto simp: push_pq_def work_pq_def work_poll_def turn_poll_def output_done_def
      callback_turn_def callback_finish_def clear_pq_def close_pq_def Let_def
      split: phase.splits)

lemma finished_run: "set (pq_finished s) \<subseteq> set (pq_finished (pq_run es s))"
proof (induction es rule: rev_induct)
  case Nil
  then show ?case by (simp add: pq_run_def)
next
  case (snoc e es)
  then show ?case using finished_step[of "pq_run es s" e] by (auto simp: pq_run_snoc)
qed

lemma pq_run_append: "pq_run (es @ fs) s = pq_run fs (pq_run es s)"
  by (simp add: pq_run_def)

lemma undisturbed_append: "undisturbed (es @ fs) \<longleftrightarrow> undisturbed es \<and> undisturbed fs"
  by (auto simp: undisturbed_def)

lemma output_orders:
  assumes "pq_inv s"
  shows "map fst (pq_output s) = [0 ..< length (pq_output s)]"
proof -
  from assms have "pq_logs s" by (simp add: pq_inv_def)
  from pq_logsD(1)[OF this] have "\<exists>n. map fst (pq_output s) = [0 ..< n]" by (rule exI)
  then obtain n where n: "map fst (pq_output s) = [0 ..< n]" by blast
  then have "length (pq_output s) = n" by (metis length_map length_upt diff_zero)
  then show ?thesis using n by simp
qed

text \<open>The three invariants of every run hold at the start and are kept by every event.\<close>

lemma pq_monoI:
  assumes "pq_work_order s \<le> pq_push_order s"
    and "\<And>k v. map_of (pq_items s) k = Some v \<Longrightarrow> fst v = k \<and> k < pq_push_order s"
    and "sorted_wrt (<) (map fst (pq_calls s))"
    and "\<And>k. k \<in> set (map fst (pq_calls s)) \<Longrightarrow> k < pq_work_order s"
    and "\<And>k r. (k, r) \<in> set (pq_output s) \<Longrightarrow> k \<le> pq_outp_order s \<and> k < pq_push_order s \<and>
        (\<exists>j < length (pq_calls s). order_of s j = k \<and>
           (phase_of s j = Output \<or> phase_of s j = Ended))"
    and "sorted_wrt (<) (map fst (pq_output s))"
  shows "pq_mono s"
  unfolding pq_mono_def using assms by blast

lemma pq_monoD:
  assumes "pq_mono s"
  shows "pq_work_order s \<le> pq_push_order s"
    and "\<And>k v. map_of (pq_items s) k = Some v \<Longrightarrow> fst v = k \<and> k < pq_push_order s"
    and "sorted_wrt (<) (map fst (pq_calls s))"
    and "\<And>k. k \<in> set (map fst (pq_calls s)) \<Longrightarrow> k < pq_work_order s"
    and "\<And>k r. (k, r) \<in> set (pq_output s) \<Longrightarrow> k \<le> pq_outp_order s \<and> k < pq_push_order s \<and>
        (\<exists>j < length (pq_calls s). order_of s j = k \<and>
           (phase_of s j = Output \<or> phase_of s j = Ended))"
    and "sorted_wrt (<) (map fst (pq_output s))"
  using assms unfolding pq_mono_def by blast+

lemma mono_other [simp]:
  "pq_mono (s\<lparr>pq_working := x1\<rparr>) = pq_mono s"
  "pq_mono (s\<lparr>pq_work_waits := x2\<rparr>) = pq_mono s"
  "pq_mono (s\<lparr>pq_curr_working := x3\<rparr>) = pq_mono s"
  "pq_mono (s\<lparr>pq_returned := x4\<rparr>) = pq_mono s"
  "pq_mono (s\<lparr>pq_finished := x5\<rparr>) = pq_mono s"
  "pq_mono (s\<lparr>pq_clearing := x6\<rparr>) = pq_mono s"
  "pq_mono (s\<lparr>pq_open := x7\<rparr>) = pq_mono s"
  by (simp_all add: pq_mono_def)

lemma mono_set_phase:
  assumes m: "pq_mono s"
    and ph: "(phase_of s i \<noteq> Output \<and> phase_of s i \<noteq> Ended) \<or> ph = Output \<or> ph = Ended"
  shows "pq_mono (set_phase s i ph)"
proof (rule pq_monoI)
  note M = pq_monoD[OF m]
  show "pq_work_order (set_phase s i ph) \<le> pq_push_order (set_phase s i ph)" using M(1) by simp
  show "\<And>k v. map_of (pq_items (set_phase s i ph)) k = Some v \<Longrightarrow>
      fst v = k \<and> k < pq_push_order (set_phase s i ph)" using M(2) by simp
  show "sorted_wrt (<) (map fst (pq_calls (set_phase s i ph)))" using M(3) by simp
  show "\<And>k. k \<in> set (map fst (pq_calls (set_phase s i ph))) \<Longrightarrow>
      k < pq_work_order (set_phase s i ph)" using M(4) by simp
  show "sorted_wrt (<) (map fst (pq_output (set_phase s i ph)))" using M(6) by simp
  fix k r assume "(k, r) \<in> set (pq_output (set_phase s i ph))"
  then have kr: "(k, r) \<in> set (pq_output s)" by simp
  from M(5)[OF kr] obtain j where j: "j < length (pq_calls s)" "order_of s j = k"
    "phase_of s j = Output \<or> phase_of s j = Ended" by blast
  have "phase_of (set_phase s i ph) j = Output \<or> phase_of (set_phase s i ph) j = Ended"
    using j ph by (auto simp: phase_of_set_phase)
  then show "k \<le> pq_outp_order (set_phase s i ph) \<and> k < pq_push_order (set_phase s i ph) \<and>
      (\<exists>j < length (pq_calls (set_phase s i ph)). order_of (set_phase s i ph) j = k \<and>
         (phase_of (set_phase s i ph) j = Output \<or> phase_of (set_phase s i ph) j = Ended))"
    using M(5)[OF kr] j by auto
qed

lemma mono_outp:
  assumes m: "pq_mono s" and n: "pq_outp_order s \<le> n \<or> n = pq_push_order s"
  shows "pq_mono (s\<lparr>pq_outp_order := n\<rparr>)"
proof -
  have "\<And>k r. (k, r) \<in> set (pq_output s) \<Longrightarrow> k \<le> n"
    using pq_monoD(5)[OF m] n by fastforce
  then show ?thesis using m unfolding pq_mono_def by (simp add: order_of_def phase_of_def) blast
qed

lemma mono_delete:
  assumes m: "pq_mono s"
  shows "pq_mono (s\<lparr>pq_items := AList.delete k (pq_items s)\<rparr>)"
  using m unfolding pq_mono_def
  by (simp add: order_of_def phase_of_def delete_conv')

lemma mono_finish:
  assumes m: "pq_mono s"
  shows "pq_mono (callback_finish s i)"
proof -
  let ?s1 = "s\<lparr>pq_items := AList.delete (order_of s i) (pq_items s)\<rparr>"
  let ?s2 = "?s1\<lparr>pq_curr_working := pq_curr_working s - 1\<rparr>"
  let ?s3 = "?s2\<lparr>pq_outp_order := pq_outp_order s + 1\<rparr>"
  have "pq_mono ?s2" using mono_delete[OF m] by simp
  then have "pq_mono ?s3" by (rule mono_outp) simp
  then have "pq_mono (set_phase ?s3 i Ended)" by (rule mono_set_phase) simp
  then show ?thesis by (simp add: callback_finish_def)
qed

lemma sorted_nth_distinct:
  assumes "sorted_wrt (<) (map f xs)" "i < length xs" "j < length xs" "i \<noteq> j"
  shows "f (xs ! i) \<noteq> (f (xs ! j) :: nat)"
proof -
  have "distinct (map f xs)" using assms(1) by (simp add: strict_sorted_iff)
  then show ?thesis using assms(2-4) by (metis length_map nth_eq_iff_index_eq nth_map)
qed

lemma mono_emit:
  assumes m: "pq_mono s" and i: "i < length (pq_calls s)"
    and ph: "phase_of s i \<noteq> Output \<and> phase_of s i \<noteq> Ended"
    and o: "pq_outp_order s = order_of s i"
    and h: "has s (order_of s i)"
  shows "pq_mono (set_phase (s\<lparr>pq_output := pq_output s @ [(order_of s i, r)]\<rparr>) i Output)"
proof -
  note M = pq_monoD[OF m]
  let ?u = "set_phase (s\<lparr>pq_output := pq_output s @ [(order_of s i, r)]\<rparr>) i Output"
  have lt: "k < order_of s i" if kr: "(k, r') \<in> set (pq_output s)" for k r'
  proof -
    from M(5)[OF kr] obtain j where j: "j < length (pq_calls s)" "order_of s j = k"
      "phase_of s j = Output \<or> phase_of s j = Ended" and le: "k \<le> pq_outp_order s" by blast
    have "j \<noteq> i" using j(3) ph by auto
    then have "order_of s j \<noteq> order_of s i"
      using sorted_nth_distinct[OF M(3) j(1) i] by (simp add: order_of_def)
    then show ?thesis using le o j(2) by simp
  qed
  have p: "order_of s i < pq_push_order s" using h M(2) by (auto simp: has_def)
  show ?thesis
  proof (rule pq_monoI)
    show "pq_work_order ?u \<le> pq_push_order ?u" using M(1) by simp
    show "\<And>k v. map_of (pq_items ?u) k = Some v \<Longrightarrow> fst v = k \<and> k < pq_push_order ?u"
      using M(2) by simp
    show "sorted_wrt (<) (map fst (pq_calls ?u))" using M(3) by simp
    show "\<And>k. k \<in> set (map fst (pq_calls ?u)) \<Longrightarrow> k < pq_work_order ?u" using M(4) by simp
    show "sorted_wrt (<) (map fst (pq_output ?u))"
      using M(6) lt by (auto simp: sorted_wrt_append)
    fix k r' assume "(k, r') \<in> set (pq_output ?u)"
    then consider "(k, r') \<in> set (pq_output s)" | "k = order_of s i" by auto
    then show "k \<le> pq_outp_order ?u \<and> k < pq_push_order ?u \<and>
        (\<exists>j < length (pq_calls ?u). order_of ?u j = k \<and>
           (phase_of ?u j = Output \<or> phase_of ?u j = Ended))"
    proof cases
      case 1
      from M(5)[OF 1] obtain j where j: "j < length (pq_calls s)" "order_of s j = k"
        "phase_of s j = Output \<or> phase_of s j = Ended" by blast
      have "phase_of ?u j = Output \<or> phase_of ?u j = Ended"
        using j(3) by (auto simp: phase_of_set_phase)
      then show ?thesis using M(5)[OF 1] j by auto
    next
      case 2
      have "phase_of ?u i = Output" using i by (simp add: phase_of_set_phase)
      then show ?thesis using 2 o p i by auto
    qed
  qed
qed

lemma mono_turn:
  assumes m: "pq_mono s" and i: "i < length (pq_calls s)"
    and ph: "phase_of s i \<noteq> Output \<and> phase_of s i \<noteq> Ended"
  shows "pq_mono (callback_turn s i r)"
proof -
  consider (wait) "\<not> pq_clearing s \<and> pq_outp_order s \<noteq> order_of s i"
    | (clr) "pq_clearing s"
    | (out) "\<not> pq_clearing s" "pq_outp_order s = order_of s i" "pq_open s \<and> has s (order_of s i)"
    | (fin) "\<not> pq_clearing s" "pq_outp_order s = order_of s i" "\<not> (pq_open s \<and> has s (order_of s i))"
    by blast
  then show ?thesis
  proof cases
    case wait
    have "pq_mono (set_phase s i (Turn r))" using m by (rule mono_set_phase) (simp add: ph)
    then show ?thesis using wait by (simp add: callback_turn_def)
  next
    case clr
    have "pq_mono (s\<lparr>pq_outp_order := pq_push_order s\<rparr>)" using m by (rule mono_outp) simp
    then have "pq_mono (set_phase (s\<lparr>pq_outp_order := pq_push_order s\<rparr>) i Ended)"
      by (rule mono_set_phase) simp
    then show ?thesis using clr by (simp add: callback_turn_def)
  next
    case out
    then show ?thesis using mono_emit[OF m i ph out(2), of r] by (simp add: callback_turn_def)
  next
    case fin
    then show ?thesis using mono_finish[OF m, of i] by (auto simp: callback_turn_def)
  qed
qed

lemma mono_append_call:
  assumes m: "pq_mono s" and w: "pq_work_order s < pq_push_order s"
  shows "pq_mono (s\<lparr>pq_work_order := pq_work_order s + 1, pq_curr_working := c,
                    pq_calls := pq_calls s @ [(pq_work_order s, a, Handler)]\<rparr>)"
    (is "pq_mono ?u")
proof (rule pq_monoI)
  note M = pq_monoD[OF m]
  show "pq_work_order ?u \<le> pq_push_order ?u" using w by simp
  show "\<And>k v. map_of (pq_items ?u) k = Some v \<Longrightarrow> fst v = k \<and> k < pq_push_order ?u"
    using M(2) by simp
  show "sorted_wrt (<) (map fst (pq_calls ?u))" using M(3) M(4) by (auto simp: sorted_wrt_append)
  show "\<And>k. k \<in> set (map fst (pq_calls ?u)) \<Longrightarrow> k < pq_work_order ?u"
    using M(4) by (auto simp: less_Suc_eq)
  show "sorted_wrt (<) (map fst (pq_output ?u))" using M(6) by simp
  fix k r assume "(k, r) \<in> set (pq_output ?u)"
  then have kr: "(k, r) \<in> set (pq_output s)" by simp
  from M(5)[OF kr] obtain j where j: "j < length (pq_calls s)" "order_of s j = k"
    "phase_of s j = Output \<or> phase_of s j = Ended" by blast
  have "order_of ?u j = k" "phase_of ?u j = Output \<or> phase_of ?u j = Ended" "j < length (pq_calls ?u)"
    using j by (simp_all add: order_of_def phase_of_def nth_append)
  then show "k \<le> pq_outp_order ?u \<and> k < pq_push_order ?u \<and>
      (\<exists>j < length (pq_calls ?u). order_of ?u j = k \<and>
         (phase_of ?u j = Output \<or> phase_of ?u j = Ended))"
    using M(5)[OF kr] by auto
qed

lemma mono_start:
  assumes m: "pq_mono s" and w: "pq_work_order s < pq_push_order s"
  shows "pq_mono (callback_start (s\<lparr>pq_work_order := pq_work_order s + 1, pq_curr_working := c\<rparr>)
           (pq_work_order s) a)"
proof -
  let ?u = "s\<lparr>pq_work_order := pq_work_order s + 1, pq_curr_working := c,
               pq_calls := pq_calls s @ [(pq_work_order s, a, Handler)]\<rparr>"
  have u: "pq_mono ?u" using m w by (rule mono_append_call)
  have i: "length (pq_calls s) < length (pq_calls ?u)" by simp
  have ph: "phase_of ?u (length (pq_calls s)) \<noteq> Output \<and> phase_of ?u (length (pq_calls s)) \<noteq> Ended"
    by (simp add: phase_of_def)
  have "pq_mono (callback_turn ?u (length (pq_calls s)) None)" using u i ph by (rule mono_turn)
  then show ?thesis using u by (simp add: callback_start_def Let_def)
qed

lemma mono_work_loop: "pq_mono s \<Longrightarrow> pq_mono (work_loop_pq s)"
proof (induction s rule: work_loop_pq.induct)
  case (1 s)
  note M = pq_monoD[OF "1.prems"]
  show ?case
  proof (cases "pq_working s \<and> 0 < length (pq_items s) \<and> pq_work_order s < pq_push_order s")
    case False
    then show ?thesis using "1.prems" work_loop_stop[of s] by simp
  next
    case True
    show ?thesis
    proof (cases "map_of (pq_items s) (pq_work_order s)")
      case None
      have "pq_mono (s\<lparr>pq_work_order := pq_work_order s + 1\<rparr>)"
        using "1.prems" True unfolding pq_mono_def
        by (simp add: order_of_def phase_of_def) (meson less_Suc_eq)
      then have "pq_mono (work_loop_pq (s\<lparr>pq_work_order := pq_work_order s + 1\<rparr>))"
        using "1.IH"(1)[OF True None] by simp
      then show ?thesis using work_loop_pq.simps[of s] True None by simp
    next
      case (Some item)
      have f: "fst item = pq_work_order s" using M(2)[OF Some] by simp
      let ?s1 = "s\<lparr>pq_work_order := pq_work_order s + 1, pq_curr_working := pq_curr_working s + 1\<rparr>"
      let ?s2 = "callback_start ?s1 (fst item) (snd item)"
      have s2: "pq_mono ?s2" using mono_start[OF "1.prems", of "pq_curr_working s + 1" "snd item"] True f
        by simp
      show ?thesis
      proof (cases "pq_open ?s2 \<and> pq_curr_working ?s2 \<ge> pq_limit ?s2")
        case w: True
        then have "work_loop_pq s = ?s2\<lparr>pq_work_waits := pq_work_waits ?s2 + 1\<rparr>"
          using work_loop_pq.simps[of s] True Some by (simp add: Let_def)
        then show ?thesis using s2 by simp
      next
        case w: False
        have "pq_mono (work_loop_pq ?s2)" using "1.IH"(2)[OF True Some refl refl w] s2 by simp
        moreover have "work_loop_pq s = work_loop_pq ?s2"
          using work_loop_pq.simps[of s] True Some w by (auto simp: Let_def)
        ultimately show ?thesis by simp
      qed
    qed
  qed
qed

lemma mono_push_items:
  assumes m: "pq_mono s"
  shows "pq_mono (s\<lparr>pq_items := AList.update (pq_push_order s) (pq_push_order s, args) (pq_items s),
               pq_push_order := pq_push_order s + 1\<rparr>)" (is "pq_mono ?s2")
proof (rule pq_monoI)
  note M = pq_monoD[OF m]
  show "pq_work_order ?s2 \<le> pq_push_order ?s2" using M(1) by simp
  show "\<And>k v. map_of (pq_items ?s2) k = Some v \<Longrightarrow> fst v = k \<and> k < pq_push_order ?s2"
    using M(2) by (auto simp: update_conv' less_Suc_eq split: if_splits)
  show "sorted_wrt (<) (map fst (pq_calls ?s2))" using M(3) by simp
  show "\<And>k. k \<in> set (map fst (pq_calls ?s2)) \<Longrightarrow> k < pq_work_order ?s2" using M(4) by simp
  show "sorted_wrt (<) (map fst (pq_output ?s2))" using M(6) by simp
  fix k r assume "(k, r) \<in> set (pq_output ?s2)"
  then have kr: "(k, r) \<in> set (pq_output s)" by simp
  show "k \<le> pq_outp_order ?s2 \<and> k < pq_push_order ?s2 \<and>
    (\<exists>j < length (pq_calls ?s2). order_of ?s2 j = k \<and>
       (phase_of ?s2 j = Output \<or> phase_of ?s2 j = Ended))"
    using M(5)[OF kr] by (auto simp: order_of_def phase_of_def)
qed

lemma mono_push: "pq_mono s \<Longrightarrow> pq_mono (push_pq s args)"
proof -
  assume m: "pq_mono s"
  let ?s2 = "s\<lparr>pq_items := AList.update (pq_push_order s) (pq_push_order s, args) (pq_items s),
               pq_push_order := pq_push_order s + 1\<rparr>"
  have s2: "pq_mono ?s2" using m by (rule mono_push_items)
  have "pq_mono (work_pq ?s2)"
    unfolding work_pq_def by (rule mono_work_loop) (use s2 in simp)
  then show ?thesis using m s2 by (simp add: push_pq_def Let_def)
qed

lemma mono_clear: "pq_mono s \<Longrightarrow> pq_mono (clear_pq s)"
  unfolding pq_mono_def clear_pq_def by (simp add: order_of_def phase_of_def)

lemma mono_step: "pq_mono s \<Longrightarrow> pq_mono (pq_step s e)"
proof (cases e)
  case (PqPush x)
  assume "pq_mono s"
  then show ?thesis using PqPush by (simp add: mono_push)
next
  case PqWorkPoll
  assume m: "pq_mono s"
  have "pq_mono (work_loop_pq (s\<lparr>pq_work_waits := pq_work_waits s - 1\<rparr>))"
    by (rule mono_work_loop) (simp add: m)
  then show ?thesis using PqWorkPoll m by (simp add: work_poll_def)
next
  case (PqFinish i r)
  assume m: "pq_mono s"
  show ?thesis
  proof (cases "i < length (pq_calls s) \<and> phase_of s i = Handler")
    case False
    then show ?thesis using m PqFinish by (auto simp: handler_settles_def)
  next
    case True
    let ?s1 = "s\<lparr>pq_finished := pq_finished s @ [(order_of s i, r)]\<rparr>"
    have s1: "pq_mono ?s1" using m by simp
    have i: "i < length (pq_calls ?s1)" using True by simp
    have ph: "phase_of ?s1 i \<noteq> Output \<and> phase_of ?s1 i \<noteq> Ended" using True by simp
    show ?thesis
    proof (cases r)
      case (Returns v)
      then show ?thesis using mono_turn[OF s1 i ph, of "Some v"] True PqFinish
        by (simp add: handler_settles_def Let_def)
    next
      case (Throws x)
      have "pq_mono (set_phase ?s1 i (Rejected x))" using s1 by (rule mono_set_phase) (use ph in simp)
      then show ?thesis using Throws True PqFinish by (simp add: handler_settles_def Let_def)
    qed
  qed
next
  case (PqTurnPoll i)
  assume m: "pq_mono s"
  show ?thesis
  proof (cases "i < length (pq_calls s)")
    case False
    then show ?thesis using m PqTurnPoll by (simp add: turn_poll_def)
  next
    case True
    show ?thesis
    proof (cases "phase_of s i")
      case (Turn r)
      have "pq_mono (callback_turn s i r)" using m True by (rule mono_turn) (simp add: Turn)
      then show ?thesis using True Turn PqTurnPoll by (simp add: turn_poll_def)
    qed (use m True PqTurnPoll in \<open>simp_all add: turn_poll_def\<close>)
  qed
next
  case (PqOutputDone i)
  assume m: "pq_mono s"
  then show ?thesis using PqOutputDone mono_finish[of s i] by (simp add: output_done_def)
next
  case PqClear
  assume "pq_mono s"
  then show ?thesis using PqClear by (simp add: mono_clear)
next
  case PqClose
  assume m: "pq_mono s"
  have "pq_mono (clear_pq (s\<lparr>pq_open := False, pq_working := False\<rparr>))"
    by (rule mono_clear) (simp add: m)
  then show ?thesis using PqClose by (simp add: close_pq_def)
qed

lemma mono_new: "pq_mono (ParalelQueue_new limit)"
  by (simp add: pq_mono_def ParalelQueue_new_def)

lemma mono_run: "pq_mono (pq_run es (ParalelQueue_new limit))"
proof (induction es rule: rev_induct)
  case Nil
  then show ?case by (simp add: pq_run_def mono_new)
next
  case (snoc e es)
  then show ?case by (simp add: pq_run_snoc mono_step del: pq_step.simps)
qed

lemma pq_valsI:
  assumes "pq_push_order s = length A"
    and "\<And>k v. map_of (pq_items s) k = Some v \<Longrightarrow> snd v = A ! k"
    and "\<And>c. c \<in> set (pq_calls s) \<Longrightarrow> fst (snd c) = A ! fst c"
    and "\<And>k r. (k, r) \<in> set (pq_output s) \<Longrightarrow> \<exists>v. r = Some v \<and> (k, Returns v) \<in> set (pq_finished s)"
    and "\<And>i r. i < length (pq_calls s) \<Longrightarrow> phase_of s i = Turn r \<Longrightarrow>
        (\<exists>v. r = Some v \<and> (order_of s i, Returns v) \<in> set (pq_finished s)) \<or> \<not> pq_open s"
  shows "pq_vals A s"
  unfolding pq_vals_def using assms by blast

lemma pq_valsD:
  assumes "pq_vals A s"
  shows "pq_push_order s = length A"
    and "\<And>k v. map_of (pq_items s) k = Some v \<Longrightarrow> snd v = A ! k"
    and "\<And>c. c \<in> set (pq_calls s) \<Longrightarrow> fst (snd c) = A ! fst c"
    and "\<And>k r. (k, r) \<in> set (pq_output s) \<Longrightarrow> \<exists>v. r = Some v \<and> (k, Returns v) \<in> set (pq_finished s)"
    and "\<And>i r. i < length (pq_calls s) \<Longrightarrow> phase_of s i = Turn r \<Longrightarrow>
        (\<exists>v. r = Some v \<and> (order_of s i, Returns v) \<in> set (pq_finished s)) \<or> \<not> pq_open s"
  using assms unfolding pq_vals_def by blast+

lemma vals_other [simp]:
  "pq_vals A (s\<lparr>pq_working := x1\<rparr>) = pq_vals A s"
  "pq_vals A (s\<lparr>pq_work_waits := x2\<rparr>) = pq_vals A s"
  "pq_vals A (s\<lparr>pq_curr_working := x3\<rparr>) = pq_vals A s"
  "pq_vals A (s\<lparr>pq_returned := x4\<rparr>) = pq_vals A s"
  "pq_vals A (s\<lparr>pq_clearing := x6\<rparr>) = pq_vals A s"
  "pq_vals A (s\<lparr>pq_outp_order := x7\<rparr>) = pq_vals A s"
  "pq_vals A (s\<lparr>pq_work_order := x8\<rparr>) = pq_vals A s"
  by (simp_all add: pq_vals_def)

lemma set_phase_calls:
  "c \<in> set (pq_calls (set_phase s i ph)) \<Longrightarrow> \<exists>d \<in> set (pq_calls s). fst d = fst c \<and> fst (snd d) = fst (snd c)"
proof (cases "i < length (pq_calls s)")
  case False
  assume "c \<in> set (pq_calls (set_phase s i ph))"
  then show ?thesis using False by (auto simp: set_phase_def list_update_beyond)
next
  case True
  assume "c \<in> set (pq_calls (set_phase s i ph))"
  then have "c \<in> insert (fst (pq_calls s ! i), fst (snd (pq_calls s ! i)), ph) (set (pq_calls s))"
    using set_update_subset_insert[of "pq_calls s" i] by (auto simp: set_phase_def)
  then show ?thesis using True nth_mem[OF True] by auto
qed

lemma vals_set_phase:
  assumes v: "pq_vals A s"
    and ph: "\<And>r. ph = Turn r \<Longrightarrow>
        (\<exists>v. r = Some v \<and> (order_of s i, Returns v) \<in> set (pq_finished s)) \<or> \<not> pq_open s"
  shows "pq_vals A (set_phase s i ph)"
proof (rule pq_valsI)
  note V = pq_valsD[OF v]
  let ?u = "set_phase s i ph"
  show "pq_push_order ?u = length A" using V(1) by simp
  show "\<And>k v. map_of (pq_items ?u) k = Some v \<Longrightarrow> snd v = A ! k" using V(2) by simp
  show "\<And>c. c \<in> set (pq_calls ?u) \<Longrightarrow> fst (snd c) = A ! fst c"
    using V(3) set_phase_calls[of _ s i ph] by metis
  show "\<And>k r. (k, r) \<in> set (pq_output ?u) \<Longrightarrow>
      \<exists>v. r = Some v \<and> (k, Returns v) \<in> set (pq_finished ?u)" using V(4) by simp
  fix j r assume j: "j < length (pq_calls ?u)" and t: "phase_of ?u j = Turn r"
  show "(\<exists>v. r = Some v \<and> (order_of ?u j, Returns v) \<in> set (pq_finished ?u)) \<or> \<not> pq_open ?u"
  proof (cases "j = i")
    case True
    then have "ph = Turn r" using j t by (simp add: phase_of_set_phase)
    then show ?thesis using ph True by simp
  next
    case False
    then have "phase_of s j = Turn r" using t by (simp add: phase_of_set_phase)
    then show ?thesis using V(5)[of j r] j by simp
  qed
qed

lemma vals_delete:
  assumes v: "pq_vals A s"
  shows "pq_vals A (s\<lparr>pq_items := AList.delete k (pq_items s)\<rparr>)"
  using v unfolding pq_vals_def
  by (simp add: order_of_def phase_of_def delete_conv')

lemma vals_finish:
  assumes v: "pq_vals A s"
  shows "pq_vals A (callback_finish s i)"
proof -
  let ?s1 = "s\<lparr>pq_items := AList.delete (order_of s i) (pq_items s)\<rparr>"
  let ?s3 = "?s1\<lparr>pq_curr_working := pq_curr_working s - 1, pq_outp_order := pq_outp_order s + 1\<rparr>"
  have "pq_vals A ?s3" using vals_delete[OF v] by simp
  then have "pq_vals A (set_phase ?s3 i Ended)" by (rule vals_set_phase) simp
  then show ?thesis by (simp add: callback_finish_def)
qed

lemma vals_emit:
  assumes v: "pq_vals A s"
    and r: "\<exists>v. r = Some v \<and> (order_of s i, Returns v) \<in> set (pq_finished s)"
  shows "pq_vals A (set_phase (s\<lparr>pq_output := pq_output s @ [(order_of s i, r)]\<rparr>) i Output)"
proof -
  have "pq_vals A (s\<lparr>pq_output := pq_output s @ [(order_of s i, r)]\<rparr>)"
    using v r unfolding pq_vals_def by (auto simp: order_of_def phase_of_def)
  then show ?thesis by (rule vals_set_phase) simp
qed

lemma vals_turn:
  assumes v: "pq_vals A s"
    and r: "(\<exists>v. r = Some v \<and> (order_of s i, Returns v) \<in> set (pq_finished s)) \<or> \<not> pq_open s"
  shows "pq_vals A (callback_turn s i r)"
proof -
  consider (wait) "\<not> pq_clearing s \<and> pq_outp_order s \<noteq> order_of s i"
    | (clr) "pq_clearing s"
    | (out) "\<not> pq_clearing s" "pq_outp_order s = order_of s i" "pq_open s \<and> has s (order_of s i)"
    | (fin) "\<not> pq_clearing s" "pq_outp_order s = order_of s i" "\<not> (pq_open s \<and> has s (order_of s i))"
    by blast
  then show ?thesis
  proof cases
    case wait
    have "pq_vals A (set_phase s i (Turn r))" using v by (rule vals_set_phase) (use r in simp)
    then show ?thesis using wait by (simp add: callback_turn_def)
  next
    case clr
    have "pq_vals A (s\<lparr>pq_outp_order := pq_push_order s\<rparr>)" using v by simp
    then have "pq_vals A (set_phase (s\<lparr>pq_outp_order := pq_push_order s\<rparr>) i Ended)"
      by (rule vals_set_phase) simp
    then show ?thesis using clr by (simp add: callback_turn_def)
  next
    case out
    then have "\<exists>v. r = Some v \<and> (order_of s i, Returns v) \<in> set (pq_finished s)" using r by simp
    from vals_emit[OF v this] show ?thesis using out by (simp add: callback_turn_def)
  next
    case fin
    then show ?thesis using vals_finish[OF v, of i] by (auto simp: callback_turn_def)
  qed
qed

lemma vals_append_call:
  assumes v: "pq_vals A s" and a: "a = A ! k"
  shows "pq_vals A (s\<lparr>pq_calls := pq_calls s @ [(k, a, Handler)]\<rparr>)" (is "pq_vals A ?u")
proof (rule pq_valsI)
  note V = pq_valsD[OF v]
  show "pq_push_order ?u = length A" using V(1) by simp
  show "\<And>k v. map_of (pq_items ?u) k = Some v \<Longrightarrow> snd v = A ! k" using V(2) by simp
  show "\<And>c. c \<in> set (pq_calls ?u) \<Longrightarrow> fst (snd c) = A ! fst c" using V(3) a by auto
  show "\<And>k r. (k, r) \<in> set (pq_output ?u) \<Longrightarrow>
      \<exists>v. r = Some v \<and> (k, Returns v) \<in> set (pq_finished ?u)" using V(4) by simp
  fix j r assume j: "j < length (pq_calls ?u)" and t: "phase_of ?u j = Turn r"
  have jl: "j < length (pq_calls s)" using j t by (cases "j = length (pq_calls s)") (auto simp: phase_of_def)
  then have "phase_of s j = Turn r" "order_of ?u j = order_of s j"
    using t by (simp_all add: phase_of_def order_of_def nth_append)
  then show "(\<exists>v. r = Some v \<and> (order_of ?u j, Returns v) \<in> set (pq_finished ?u)) \<or> \<not> pq_open ?u"
    using V(5)[OF jl] by simp
qed

lemma vals_start:
  assumes v: "pq_vals A s" and a: "a = A ! k"
  shows "pq_vals A (callback_start s k a)"
proof -
  let ?u = "s\<lparr>pq_calls := pq_calls s @ [(k, a, Handler)]\<rparr>"
  have u: "pq_vals A ?u" using v a by (rule vals_append_call)
  have "pq_vals A (callback_turn ?u (length (pq_calls s)) None)" if "\<not> pq_open s"
    using u by (rule vals_turn) (use that in simp)
  then show ?thesis using u by (simp add: callback_start_def Let_def)
qed

lemma vals_work_loop: "pq_mono s \<Longrightarrow> pq_vals A s \<Longrightarrow> pq_vals A (work_loop_pq s)"
proof (induction s rule: work_loop_pq.induct)
  case (1 s)
  note M = pq_monoD[OF "1.prems"(1)]
  note V = pq_valsD[OF "1.prems"(2)]
  show ?case
  proof (cases "pq_working s \<and> 0 < length (pq_items s) \<and> pq_work_order s < pq_push_order s")
    case False
    then show ?thesis using "1.prems" work_loop_stop[of s] by simp
  next
    case True
    show ?thesis
    proof (cases "map_of (pq_items s) (pq_work_order s)")
      case None
      have m: "pq_mono (s\<lparr>pq_work_order := pq_work_order s + 1\<rparr>)"
        using "1.prems"(1) True unfolding pq_mono_def
        by (simp add: order_of_def phase_of_def) (meson less_Suc_eq)
      have "pq_vals A (work_loop_pq (s\<lparr>pq_work_order := pq_work_order s + 1\<rparr>))"
        using "1.IH"(1)[OF True None m] "1.prems"(2) by simp
      then show ?thesis using work_loop_pq.simps[of s] True None by simp
    next
      case (Some item)
      have f: "fst item = pq_work_order s" using M(2)[OF Some] by simp
      have g: "snd item = A ! fst item" using V(2)[OF Some] f by simp
      let ?s1 = "s\<lparr>pq_work_order := pq_work_order s + 1, pq_curr_working := pq_curr_working s + 1\<rparr>"
      let ?s2 = "callback_start ?s1 (fst item) (snd item)"
      have m2: "pq_mono ?s2"
        using mono_start[OF "1.prems"(1), of "pq_curr_working s + 1" "snd item"] True f by simp
      have "pq_vals A ?s1" using "1.prems"(2) by simp
      then have s2: "pq_vals A ?s2" using g by (rule vals_start)
      show ?thesis
      proof (cases "pq_open ?s2 \<and> pq_curr_working ?s2 \<ge> pq_limit ?s2")
        case w: True
        then have "work_loop_pq s = ?s2\<lparr>pq_work_waits := pq_work_waits ?s2 + 1\<rparr>"
          using work_loop_pq.simps[of s] True Some by (simp add: Let_def)
        then show ?thesis using s2 by simp
      next
        case w: False
        have "pq_vals A (work_loop_pq ?s2)" using "1.IH"(2)[OF True Some refl refl w m2 s2] by simp
        moreover have "work_loop_pq s = work_loop_pq ?s2"
          using work_loop_pq.simps[of s] True Some w by (auto simp: Let_def)
        ultimately show ?thesis by simp
      qed
    qed
  qed
qed

lemma vals_push_items:
  assumes m: "pq_mono s" and v: "pq_vals A s"
  shows "pq_vals (A @ [args])
     (s\<lparr>pq_items := AList.update (pq_push_order s) (pq_push_order s, args) (pq_items s),
        pq_push_order := pq_push_order s + 1\<rparr>)" (is "pq_vals ?A ?s2")
proof (rule pq_valsI)
  note M = pq_monoD[OF m]
  note V = pq_valsD[OF v]
  show "pq_push_order ?s2 = length ?A" using V(1) by simp
  show "map_of (pq_items ?s2) k = Some x \<Longrightarrow> snd x = ?A ! k" for k x
    using M(2)[of k x] V(2)[of k x] V(1) by (auto simp: update_conv' nth_append split: if_splits)
  show "fst (snd c) = ?A ! fst c" if c: "c \<in> set (pq_calls ?s2)" for c
  proof -
    have "fst c \<in> set (map fst (pq_calls s))" using c by auto
    then have "fst c < length A" using M(4)[of "fst c"] M(1) V(1) by simp
    then show ?thesis using V(3)[of c] c by (simp add: nth_append)
  qed
  show "\<And>k r. (k, r) \<in> set (pq_output ?s2) \<Longrightarrow>
      \<exists>v. r = Some v \<and> (k, Returns v) \<in> set (pq_finished ?s2)" using V(4) by simp
  show "\<And>i r. i < length (pq_calls ?s2) \<Longrightarrow> phase_of ?s2 i = Turn r \<Longrightarrow>
      (\<exists>v. r = Some v \<and> (order_of ?s2 i, Returns v) \<in> set (pq_finished ?s2)) \<or> \<not> pq_open ?s2"
    using V(5) by simp
qed

lemma vals_push:
  assumes m: "pq_mono s" and v: "pq_vals (accepted (pq_returned s)) s"
  shows "pq_vals (accepted (pq_returned (push_pq s args))) (push_pq s args)"
proof (cases "pq_open s")
  case False
  then show ?thesis using v by (simp add: push_pq_def)
next
  case True
  let ?A = "accepted (pq_returned s) @ [args]"
  let ?s2 = "s\<lparr>pq_items := AList.update (pq_push_order s) (pq_push_order s, args) (pq_items s),
               pq_push_order := pq_push_order s + 1\<rparr>"
  have m2: "pq_mono ?s2" using m by (rule mono_push_items)
  have v2: "pq_vals ?A ?s2" using m v by (rule vals_push_items)
  have "pq_vals ?A (work_loop_pq (?s2\<lparr>pq_working := True, pq_clearing := False\<rparr>))"
    by (rule vals_work_loop) (use m2 v2 in simp_all)
  then have v3: "pq_vals ?A (work_pq ?s2)" by (simp add: work_pq_def)
  have r: "pq_returned (work_loop_pq t) = pq_returned t" for t :: "('a, 'b) ParalelQueue"
    by (rule work_loop_returned)
  show ?thesis
  proof (cases "pq_working s")
    case w: True
    then show ?thesis using True v2 by (simp add: push_pq_def Let_def)
  next
    case w: False
    then show ?thesis using True v3 by (simp add: push_pq_def Let_def work_pq_def r)
  qed
qed

lemma vals_finished_grows:
  assumes v: "pq_vals A s"
  shows "pq_vals A (s\<lparr>pq_finished := pq_finished s @ [x]\<rparr>)"
  using v unfolding pq_vals_def by (simp add: order_of_def phase_of_def) blast

lemma vals_clear: "pq_vals A s \<Longrightarrow> pq_vals A (clear_pq s)"
  unfolding pq_vals_def clear_pq_def by (simp add: order_of_def phase_of_def)

lemma vals_shut: "pq_vals A s \<Longrightarrow> pq_vals A (s\<lparr>pq_open := False\<rparr>)"
  unfolding pq_vals_def by (simp add: order_of_def phase_of_def)

lemma turn_returned [simp]: "pq_returned (callback_turn s i r) = pq_returned s"
  by (simp add: callback_turn_def callback_finish_def)

lemma finish_returned [simp]: "pq_returned (callback_finish s i) = pq_returned s"
  by (simp add: callback_finish_def)

lemma vals_step:
  assumes m: "pq_mono s" and v: "pq_vals (accepted (pq_returned s)) s"
  shows "pq_vals (accepted (pq_returned (pq_step s e))) (pq_step s e)"
proof (cases e)
  case (PqPush x)
  then show ?thesis using vals_push[OF m v] by simp
next
  case PqWorkPoll
  have "pq_vals (accepted (pq_returned s)) (work_loop_pq (s\<lparr>pq_work_waits := pq_work_waits s - 1\<rparr>))"
    by (rule vals_work_loop) (use m v in simp_all)
  then show ?thesis using PqWorkPoll v by (simp add: work_poll_def)
next
  case (PqFinish i r)
  show ?thesis
  proof (cases "i < length (pq_calls s) \<and> phase_of s i = Handler")
    case False
    then show ?thesis using v PqFinish by (auto simp: handler_settles_def)
  next
    case True
    let ?s1 = "s\<lparr>pq_finished := pq_finished s @ [(order_of s i, r)]\<rparr>"
    have s1: "pq_vals (accepted (pq_returned s)) ?s1" using v by (rule vals_finished_grows)
    show ?thesis
    proof (cases r)
      case (Returns x)
      have "pq_vals (accepted (pq_returned s)) (callback_turn ?s1 i (Some x))"
        using s1 by (rule vals_turn) (simp add: Returns)
      then show ?thesis using Returns True PqFinish by (simp add: handler_settles_def Let_def)
    next
      case (Throws x)
      have "pq_vals (accepted (pq_returned s)) (set_phase ?s1 i (Rejected x))"
        using s1 by (rule vals_set_phase) simp
      then show ?thesis using Throws True PqFinish by (simp add: handler_settles_def Let_def)
    qed
  qed
next
  case (PqTurnPoll i)
  show ?thesis
  proof (cases "i < length (pq_calls s)")
    case False
    then show ?thesis using v PqTurnPoll by (simp add: turn_poll_def)
  next
    case True
    show ?thesis
    proof (cases "phase_of s i")
      case (Turn r)
      have "pq_vals (accepted (pq_returned s)) (callback_turn s i r)"
        using v by (rule vals_turn) (use pq_valsD(5)[OF v True Turn] in simp)
      then show ?thesis using True Turn PqTurnPoll by (simp add: turn_poll_def)
    qed (use v True PqTurnPoll in \<open>simp_all add: turn_poll_def\<close>)
  qed
next
  case (PqOutputDone i)
  then show ?thesis using v vals_finish[OF v, of i] by (simp add: output_done_def)
next
  case PqClear
  then show ?thesis using vals_clear[OF v] by (simp add: clear_pq_def)
next
  case PqClose
  have "pq_vals (accepted (pq_returned s)) (clear_pq (s\<lparr>pq_open := False, pq_working := False\<rparr>))"
    by (rule vals_clear) (use vals_shut[OF v] in simp)
  then show ?thesis using PqClose by (simp add: close_pq_def clear_pq_def)
qed

lemma vals_new: "pq_vals (accepted (pq_returned (ParalelQueue_new limit))) (ParalelQueue_new limit)"
  by (simp add: pq_vals_def ParalelQueue_new_def accepted_def)

lemma vals_run:
  "pq_vals (accepted (pq_returned (pq_run es (ParalelQueue_new limit))))
     (pq_run es (ParalelQueue_new limit))"
proof (induction es rule: rev_induct)
  case Nil
  then show ?case by (simp add: pq_run_def vals_new)
next
  case (snoc e es)
  then show ?case using vals_step[OF mono_run[of es limit], of e]
    by (simp add: pq_run_snoc del: pq_step.simps)
qed

lemma once_other [simp]:
  "pq_once (s\<lparr>pq_working := x1\<rparr>) = pq_once s"
  "pq_once (s\<lparr>pq_work_waits := x2\<rparr>) = pq_once s"
  "pq_once (s\<lparr>pq_curr_working := x3\<rparr>) = pq_once s"
  "pq_once (s\<lparr>pq_returned := x4\<rparr>) = pq_once s"
  "pq_once (s\<lparr>pq_clearing := x6\<rparr>) = pq_once s"
  "pq_once (s\<lparr>pq_outp_order := x7\<rparr>) = pq_once s"
  "pq_once (s\<lparr>pq_work_order := x8\<rparr>) = pq_once s"
  "pq_once (s\<lparr>pq_push_order := x9\<rparr>) = pq_once s"
  "pq_once (s\<lparr>pq_items := y1\<rparr>) = pq_once s"
  "pq_once (s\<lparr>pq_output := y2\<rparr>) = pq_once s"
  "pq_once (s\<lparr>pq_open := y3\<rparr>) = pq_once s"
  by (simp_all add: pq_once_def)

lemma once_set_phase:
  assumes o: "pq_once s" and ph: "ph \<noteq> Handler"
  shows "pq_once (set_phase s i ph)"
proof -
  have "\<exists>j < length (pq_calls (set_phase s i ph)).
      order_of (set_phase s i ph) j = k \<and> phase_of (set_phase s i ph) j \<noteq> Handler"
    if "(k, r) \<in> set (pq_finished s)" for k r
  proof -
    from o that obtain j where j: "j < length (pq_calls s)" "order_of s j = k"
      "phase_of s j \<noteq> Handler" unfolding pq_once_def by blast
    have "phase_of (set_phase s i ph) j \<noteq> Handler" using j(3) ph by (simp add: phase_of_set_phase)
    then show ?thesis using j by auto
  qed
  then show ?thesis using o unfolding pq_once_def by auto
qed

lemma once_finish: "pq_once s \<Longrightarrow> pq_once (callback_finish s i)"
  unfolding callback_finish_def by (rule once_set_phase) simp_all

lemma once_turn: "pq_once s \<Longrightarrow> pq_once (callback_turn s i r)"
  unfolding callback_turn_def by (auto intro!: once_set_phase once_finish)

lemma once_append_call:
  assumes o: "pq_once s"
  shows "pq_once (s\<lparr>pq_calls := pq_calls s @ [c]\<rparr>)" (is "pq_once ?u")
proof -
  have "\<exists>j < length (pq_calls ?u). order_of ?u j = k \<and> phase_of ?u j \<noteq> Handler"
    if "(k, r) \<in> set (pq_finished s)" for k r
  proof -
    from o that obtain j where j: "j < length (pq_calls s)" "order_of s j = k"
      "phase_of s j \<noteq> Handler" unfolding pq_once_def by blast
    then have "j < length (pq_calls ?u) \<and> order_of ?u j = k \<and> phase_of ?u j \<noteq> Handler"
      by (simp add: order_of_def phase_of_def nth_append)
    then show ?thesis by blast
  qed
  then show ?thesis using o unfolding pq_once_def by auto
qed

lemma once_start: "pq_once s \<Longrightarrow> pq_once (callback_start s k a)"
  unfolding callback_start_def Let_def by (auto intro!: once_turn once_append_call)

lemma once_work_loop: "pq_once s \<Longrightarrow> pq_once (work_loop_pq s)"
proof (induction s rule: work_loop_pq.induct)
  case (1 s)
  show ?case
  proof (cases "pq_working s \<and> 0 < length (pq_items s) \<and> pq_work_order s < pq_push_order s")
    case False
    then show ?thesis using "1.prems" work_loop_stop[of s] by simp
  next
    case True
    show ?thesis
    proof (cases "map_of (pq_items s) (pq_work_order s)")
      case None
      have "pq_once (work_loop_pq (s\<lparr>pq_work_order := pq_work_order s + 1\<rparr>))"
        using "1.IH"(1)[OF True None] "1.prems" by simp
      then show ?thesis using work_loop_pq.simps[of s] True None by simp
    next
      case (Some item)
      let ?s1 = "s\<lparr>pq_work_order := pq_work_order s + 1, pq_curr_working := pq_curr_working s + 1\<rparr>"
      let ?s2 = "callback_start ?s1 (fst item) (snd item)"
      have "pq_once ?s1" using "1.prems" by simp
      then have s2: "pq_once ?s2" by (rule once_start)
      show ?thesis
      proof (cases "pq_open ?s2 \<and> pq_curr_working ?s2 \<ge> pq_limit ?s2")
        case w: True
        then have "work_loop_pq s = ?s2\<lparr>pq_work_waits := pq_work_waits ?s2 + 1\<rparr>"
          using work_loop_pq.simps[of s] True Some by (simp add: Let_def)
        then show ?thesis using s2 by simp
      next
        case w: False
        have "pq_once (work_loop_pq ?s2)" using "1.IH"(2)[OF True Some refl refl w s2] by simp
        moreover have "work_loop_pq s = work_loop_pq ?s2"
          using work_loop_pq.simps[of s] True Some w by (auto simp: Let_def)
        ultimately show ?thesis by simp
      qed
    qed
  qed
qed

lemma once_push: "pq_once s \<Longrightarrow> pq_once (push_pq s args)"
proof -
  assume o: "pq_once s"
  let ?s2 = "s\<lparr>pq_items := AList.update (pq_push_order s) (pq_push_order s, args) (pq_items s),
               pq_push_order := pq_push_order s + 1\<rparr>"
  have "pq_once (work_loop_pq (?s2\<lparr>pq_working := True, pq_clearing := False\<rparr>))"
    by (rule once_work_loop) (use o in simp)
  then show ?thesis using o by (simp add: push_pq_def work_pq_def Let_def)
qed

lemma turn_finished_commute:
  "callback_turn (s\<lparr>pq_finished := F\<rparr>) i r = (callback_turn s i r)\<lparr>pq_finished := F\<rparr>"
  by (auto simp: callback_turn_def callback_finish_def set_phase_def has_def order_of_def)

lemma set_phase_finished_commute:
  "set_phase (s\<lparr>pq_finished := F\<rparr>) i ph = (set_phase s i ph)\<lparr>pq_finished := F\<rparr>"
  by (simp add: set_phase_def)

lemma turn_keeps:
  "length (pq_calls (callback_turn s i r)) = length (pq_calls s)"
  "order_of (callback_turn s i r) j = order_of s j"
  "pq_finished (callback_turn s i r) = pq_finished s"
  "i < length (pq_calls s) \<Longrightarrow> phase_of (callback_turn s i r) i \<noteq> Handler"
  by (simp_all add: callback_turn_def callback_finish_def phase_of_set_phase)

lemma once_settled:
  assumes m: "pq_mono s" and o: "pq_once s"
    and i: "i < length (pq_calls s)" and h: "phase_of s i = Handler"
    and t: "pq_once t" "pq_finished t = pq_finished s" "length (pq_calls t) = length (pq_calls s)"
      "order_of t i = order_of s i" "phase_of t i \<noteq> Handler"
  shows "pq_once (t\<lparr>pq_finished := pq_finished s @ [(order_of s i, r)]\<rparr>)"
proof -
  have new: "order_of s i \<notin> fst ` set (pq_finished s)"
  proof
    assume "order_of s i \<in> fst ` set (pq_finished s)"
    then obtain r' where "(order_of s i, r') \<in> set (pq_finished s)" by force
    with o obtain j where j: "j < length (pq_calls s)" "order_of s j = order_of s i"
      "phase_of s j \<noteq> Handler" unfolding pq_once_def by blast
    have "j \<noteq> i" using j(3) h by auto
    then show False using sorted_nth_distinct[OF pq_monoD(3)[OF m] j(1) i] j(2)
      by (simp add: order_of_def)
  qed
  have "\<exists>j < length (pq_calls t). order_of t j = order_of s i \<and> phase_of t j \<noteq> Handler"
    using t i by auto
  then show ?thesis using t(1,2) new unfolding pq_once_def
    by (auto simp: order_of_def phase_of_def)
qed

lemma once_handler_settles:
  assumes m: "pq_mono s" and o: "pq_once s"
  shows "pq_once (handler_settles s i r)"
proof (cases "i < length (pq_calls s) \<and> phase_of s i = Handler")
  case False
  then show ?thesis using o by (auto simp: handler_settles_def)
next
  case True
  then have i: "i < length (pq_calls s)" and h: "phase_of s i = Handler" by simp_all
  show ?thesis
  proof (cases r)
    case (Returns v)
    let ?t = "callback_turn s i (Some v)"
    have "pq_once (?t\<lparr>pq_finished := pq_finished s @ [(order_of s i, r)]\<rparr>)"
      using m o i h once_turn[OF o, of i "Some v"] turn_keeps[where s = s and i = i and r = "Some v"]
      by (intro once_settled) simp_all
    then show ?thesis using True Returns
      by (simp add: handler_settles_def Let_def turn_finished_commute)
  next
    case (Throws e)
    let ?t = "set_phase s i (Rejected e)"
    have "pq_once (?t\<lparr>pq_finished := pq_finished s @ [(order_of s i, r)]\<rparr>)"
      using m o i h once_set_phase[OF o, of "Rejected e" i]
      by (intro once_settled) (simp_all add: phase_of_set_phase)
    then show ?thesis using True Throws
      by (simp add: handler_settles_def Let_def set_phase_finished_commute)
  qed
qed

lemma once_step:
  assumes m: "pq_mono s" and o: "pq_once s"
  shows "pq_once (pq_step s e)"
proof (cases e)
  case (PqPush x)
  then show ?thesis using once_push[OF o] by simp
next
  case PqWorkPoll
  have "pq_once (work_loop_pq (s\<lparr>pq_work_waits := pq_work_waits s - 1\<rparr>))"
    by (rule once_work_loop) (use o in simp)
  then show ?thesis using PqWorkPoll o by (simp add: work_poll_def)
next
  case (PqFinish i r)
  then show ?thesis using once_handler_settles[OF m o] by simp
next
  case (PqTurnPoll i)
  then show ?thesis using o once_turn[OF o]
    by (cases "phase_of s i") (simp_all add: turn_poll_def)
next
  case (PqOutputDone i)
  then show ?thesis using o once_finish[OF o, of i] by (simp add: output_done_def)
next
  case PqClear
  then show ?thesis using o by (simp add: clear_pq_def)
next
  case PqClose
  then show ?thesis using o by (simp add: close_pq_def clear_pq_def)
qed

lemma once_run: "pq_once (pq_run es (ParalelQueue_new limit))"
proof (induction es rule: rev_induct)
  case Nil
  then show ?case by (simp add: pq_run_def pq_once_def ParalelQueue_new_def)
next
  case (snoc e es)
  then show ?case using once_step[OF mono_run[of es limit], of e]
    by (simp add: pq_run_snoc del: pq_step.simps)
qed

text \<open>
  Claim C1. Let \<open>s\<close> be the state after any run, the handlers settling in any order.
  The output callback has been called for strictly increasing orders, so never twice for
  an order and never for an order after a later one; the result passed for an order is
  the value its handler returned, and the handler of an order settles once; the
  activations carry increasing orders, and the activation of order \<open>k\<close> was called with
  the arguments of the \<open>k\<close>-th accepted push. When \<^verbatim>\<open>clear\<close> and \<^verbatim>\<open>close\<close> are not called,
  moreover, no order is left out: the output callback has been called for the orders
  \<open>0, 1, 2, ...\<close>, activation \<open>i\<close> carries order \<open>i\<close>, and the activation whose turn it is,
  holding its result, calls the output callback at its next poll.
\<close>

theorem C1_ordered_output:
  assumes run: "s = pq_run es (ParalelQueue_new limit)"
  shows "sorted_wrt (<) (map fst (pq_output s)) \<and>
         (\<forall>(k, r) \<in> set (pq_output s). \<exists>v. r = Some v \<and> (k, Returns v) \<in> set (pq_finished s)) \<and>
         distinct (map fst (pq_finished s)) \<and>
         (\<forall>(k, r) \<in> set (pq_finished s). k \<in> fst ` set (pq_calls s)) \<and>
         sorted_wrt (<) (map fst (pq_calls s)) \<and>
         (\<forall>c \<in> set (pq_calls s). fst c < length (accepted (pq_returned s)) \<and>
            fst (snd c) = accepted (pq_returned s) ! fst c) \<and>
         (undisturbed es \<longrightarrow>
            map fst (pq_output s) = [0 ..< length (pq_output s)] \<and>
            map fst (pq_calls s) = [0 ..< length (pq_calls s)] \<and>
            (\<forall>i r. i < length (pq_calls s) \<and> phase_of s i = Turn r \<and> pq_outp_order s = i \<longrightarrow>
               pq_output (pq_step s (PqTurnPoll i)) = pq_output s @ [(i, r)]))"
proof -
  have m: "pq_mono s" unfolding run by (rule mono_run)
  have v: "pq_vals (accepted (pq_returned s)) s" unfolding run by (rule vals_run)
  have o: "pq_once s" unfolding run by (rule once_run)
  note M = pq_monoD[OF m]
  note V = pq_valsD[OF v]
  have a: "sorted_wrt (<) (map fst (pq_output s))" by (rule M(6))
  have b: "\<forall>(k, r) \<in> set (pq_output s). \<exists>v. r = Some v \<and> (k, Returns v) \<in> set (pq_finished s)"
    using V(4) by blast
  have c: "distinct (map fst (pq_finished s))" using o by (simp add: pq_once_def)
  have d: "\<forall>(k, r) \<in> set (pq_finished s). k \<in> fst ` set (pq_calls s)"
  proof (clarify)
    fix k r assume "(k, r) \<in> set (pq_finished s)"
    with o obtain j where "j < length (pq_calls s)" "order_of s j = k"
      unfolding pq_once_def by blast
    then show "k \<in> fst ` set (pq_calls s)" using nth_mem[of j "pq_calls s"]
      by (auto simp: order_of_def)
  qed
  have e: "sorted_wrt (<) (map fst (pq_calls s))" by (rule M(3))
  have f: "\<forall>c \<in> set (pq_calls s). fst c < length (accepted (pq_returned s)) \<and>
      fst (snd c) = accepted (pq_returned s) ! fst c"
  proof
    fix c assume c: "c \<in> set (pq_calls s)"
    then have "fst c \<in> set (map fst (pq_calls s))" by simp
    then have "fst c < pq_work_order s" by (rule M(4))
    then show "fst c < length (accepted (pq_returned s)) \<and>
        fst (snd c) = accepted (pq_returned s) ! fst c"
      using M(1) V(1) V(3)[OF c] by simp
  qed
  have g: "map fst (pq_output s) = [0 ..< length (pq_output s)] \<and>
      map fst (pq_calls s) = [0 ..< length (pq_calls s)] \<and>
      (\<forall>i r. i < length (pq_calls s) \<and> phase_of s i = Turn r \<and> pq_outp_order s = i \<longrightarrow>
         pq_output (pq_step s (PqTurnPoll i)) = pq_output s @ [(i, r)])" if und: "undisturbed es"
  proof -
    have inv: "pq_inv s" unfolding run using und by (rule inv_run)
    then have sh: "pq_shape (accepted (pq_returned s)) s" by (simp add: pq_inv_def)
    have l: "length (pq_calls s) = pq_work_order s" using sh by (rule shape_length)
    have g1: "map fst (pq_output s) = [0 ..< length (pq_output s)]" using inv by (rule output_orders)
    have g2: "map fst (pq_calls s) = [0 ..< length (pq_calls s)]" using sh l by (simp add: pq_shape_def)
    have g3: "pq_output (pq_step s (PqTurnPoll i)) = pq_output s @ [(i, r)]"
      if "i < length (pq_calls s)" "phase_of s i = Turn r" "pq_outp_order s = i" for i r
      using that turn_output[OF sh, of i r] l by (simp add: turn_poll_def)
    show ?thesis using g1 g2 g3 by blast
  qed
  show ?thesis using a b c d e f g by blast
qed

lemma thrown_other [simp]:
  "pq_thrown (s\<lparr>pq_working := x1\<rparr>) = pq_thrown s"
  "pq_thrown (s\<lparr>pq_work_waits := x2\<rparr>) = pq_thrown s"
  "pq_thrown (s\<lparr>pq_curr_working := x3\<rparr>) = pq_thrown s"
  "pq_thrown (s\<lparr>pq_returned := x4\<rparr>) = pq_thrown s"
  "pq_thrown (s\<lparr>pq_clearing := x6\<rparr>) = pq_thrown s"
  "pq_thrown (s\<lparr>pq_outp_order := x7\<rparr>) = pq_thrown s"
  "pq_thrown (s\<lparr>pq_work_order := x8\<rparr>) = pq_thrown s"
  "pq_thrown (s\<lparr>pq_push_order := x9\<rparr>) = pq_thrown s"
  "pq_thrown (s\<lparr>pq_items := y1\<rparr>) = pq_thrown s"
  "pq_thrown (s\<lparr>pq_output := y2\<rparr>) = pq_thrown s"
  "pq_thrown (s\<lparr>pq_open := y3\<rparr>) = pq_thrown s"
  by (simp_all add: pq_thrown_def)

lemma unrejected_other [simp]:
  "unrejected (s\<lparr>pq_items := a1\<rparr>) = unrejected s"
  "unrejected (s\<lparr>pq_curr_working := a2\<rparr>) = unrejected s"
  "unrejected (s\<lparr>pq_outp_order := a5\<rparr>) = unrejected s"
  "unrejected (s\<lparr>pq_output := b1\<rparr>) = unrejected s"
  "unrejected (s\<lparr>pq_finished := b2\<rparr>) = unrejected s"
  by (simp_all add: unrejected_def fun_eq_iff)

lemma thrown_set_phase:
  assumes t: "pq_thrown s" and u: "unrejected s i"
  shows "pq_thrown (set_phase s i ph)"
proof -
  have "\<exists>j < length (pq_calls (set_phase s i ph)).
      order_of (set_phase s i ph) j = k \<and> phase_of (set_phase s i ph) j = Rejected e"
    if "(k, Throws e) \<in> set (pq_finished s)" for k e
  proof -
    from t that obtain j where j: "j < length (pq_calls s)" "order_of s j = k"
      "phase_of s j = Rejected e" unfolding pq_thrown_def by blast
    have "j \<noteq> i" using j(3) u by (auto simp: unrejected_def)
    then have "phase_of (set_phase s i ph) j = Rejected e" using j(3)
      by (simp add: phase_of_set_phase)
    then show ?thesis using j by auto
  qed
  then show ?thesis unfolding pq_thrown_def by auto
qed

lemma thrown_finish: "pq_thrown s \<Longrightarrow> unrejected s i \<Longrightarrow> pq_thrown (callback_finish s i)"
  unfolding callback_finish_def by (rule thrown_set_phase) simp_all

lemma thrown_turn: "pq_thrown s \<Longrightarrow> unrejected s i \<Longrightarrow> pq_thrown (callback_turn s i r)"
  unfolding callback_turn_def by (auto intro!: thrown_set_phase thrown_finish)

lemma thrown_append_call:
  assumes t: "pq_thrown s"
  shows "pq_thrown (s\<lparr>pq_calls := pq_calls s @ [c]\<rparr>)" (is "pq_thrown ?u")
proof -
  have "\<exists>j < length (pq_calls ?u). order_of ?u j = k \<and> phase_of ?u j = Rejected e"
    if "(k, Throws e) \<in> set (pq_finished s)" for k e
  proof -
    from t that obtain j where j: "j < length (pq_calls s)" "order_of s j = k"
      "phase_of s j = Rejected e" unfolding pq_thrown_def by blast
    then have "j < length (pq_calls ?u) \<and> order_of ?u j = k \<and> phase_of ?u j = Rejected e"
      by (simp add: order_of_def phase_of_def nth_append)
    then show ?thesis by blast
  qed
  then show ?thesis unfolding pq_thrown_def by auto
qed

lemma thrown_start: "pq_thrown s \<Longrightarrow> pq_thrown (callback_start s k a)"
proof -
  assume t: "pq_thrown s"
  let ?u = "s\<lparr>pq_calls := pq_calls s @ [(k, a, Handler)]\<rparr>"
  have u: "pq_thrown ?u" using t by (rule thrown_append_call)
  have "unrejected ?u (length (pq_calls s))" by (simp add: unrejected_def phase_of_def)
  with u have "pq_thrown (callback_turn ?u (length (pq_calls s)) None)" by (rule thrown_turn)
  then show ?thesis using u by (simp add: callback_start_def Let_def)
qed

lemma thrown_work_loop: "pq_thrown s \<Longrightarrow> pq_thrown (work_loop_pq s)"
proof (induction s rule: work_loop_pq.induct)
  case (1 s)
  show ?case
  proof (cases "pq_working s \<and> 0 < length (pq_items s) \<and> pq_work_order s < pq_push_order s")
    case False
    then show ?thesis using "1.prems" work_loop_stop[of s] by simp
  next
    case True
    show ?thesis
    proof (cases "map_of (pq_items s) (pq_work_order s)")
      case None
      have "pq_thrown (work_loop_pq (s\<lparr>pq_work_order := pq_work_order s + 1\<rparr>))"
        using "1.IH"(1)[OF True None] "1.prems" by simp
      then show ?thesis using work_loop_pq.simps[of s] True None by simp
    next
      case (Some item)
      let ?s1 = "s\<lparr>pq_work_order := pq_work_order s + 1, pq_curr_working := pq_curr_working s + 1\<rparr>"
      let ?s2 = "callback_start ?s1 (fst item) (snd item)"
      have "pq_thrown ?s1" using "1.prems" by simp
      then have s2: "pq_thrown ?s2" by (rule thrown_start)
      show ?thesis
      proof (cases "pq_open ?s2 \<and> pq_curr_working ?s2 \<ge> pq_limit ?s2")
        case w: True
        then have "work_loop_pq s = ?s2\<lparr>pq_work_waits := pq_work_waits ?s2 + 1\<rparr>"
          using work_loop_pq.simps[of s] True Some by (simp add: Let_def)
        then show ?thesis using s2 by simp
      next
        case w: False
        have "pq_thrown (work_loop_pq ?s2)" using "1.IH"(2)[OF True Some refl refl w s2] by simp
        moreover have "work_loop_pq s = work_loop_pq ?s2"
          using work_loop_pq.simps[of s] True Some w by (auto simp: Let_def)
        ultimately show ?thesis by simp
      qed
    qed
  qed
qed

lemma thrown_push: "pq_thrown s \<Longrightarrow> pq_thrown (push_pq s args)"
proof -
  assume t: "pq_thrown s"
  let ?s2 = "s\<lparr>pq_items := AList.update (pq_push_order s) (pq_push_order s, args) (pq_items s),
               pq_push_order := pq_push_order s + 1\<rparr>"
  have "pq_thrown (work_loop_pq (?s2\<lparr>pq_working := True, pq_clearing := False\<rparr>))"
    by (rule thrown_work_loop) (use t in simp)
  then show ?thesis using t by (simp add: push_pq_def work_pq_def Let_def)
qed

lemma thrown_finished_returns:
  "pq_thrown s \<Longrightarrow> pq_thrown (s\<lparr>pq_finished := pq_finished s @ [(k, Returns v)]\<rparr>)"
  unfolding pq_thrown_def by (auto simp: order_of_def phase_of_def)

lemma thrown_handler_settles:
  assumes t: "pq_thrown s"
  shows "pq_thrown (handler_settles s i r)"
proof (cases "i < length (pq_calls s) \<and> phase_of s i = Handler")
  case False
  then show ?thesis using t by (auto simp: handler_settles_def)
next
  case True
  then have i: "i < length (pq_calls s)" and h: "phase_of s i = Handler" by simp_all
  show ?thesis
  proof (cases r)
    case (Returns v)
    let ?s1 = "s\<lparr>pq_finished := pq_finished s @ [(order_of s i, Returns v)]\<rparr>"
    have "pq_thrown ?s1" using t by (rule thrown_finished_returns)
    moreover have "unrejected ?s1 i" using h by (simp add: unrejected_def)
    ultimately have "pq_thrown (callback_turn ?s1 i (Some v))" by (rule thrown_turn)
    then show ?thesis using True Returns by (simp add: handler_settles_def Let_def)
  next
    case (Throws e)
    let ?s1 = "s\<lparr>pq_finished := pq_finished s @ [(order_of s i, Throws e)]\<rparr>"
    let ?t = "set_phase ?s1 i (Rejected e)"
    have "\<exists>j < length (pq_calls ?t). order_of ?t j = k \<and> phase_of ?t j = Rejected e'"
      if m: "(k, Throws e') \<in> set (pq_finished ?t)" for k e'
    proof -
      from m consider (old) "(k, Throws e') \<in> set (pq_finished s)"
        | (new) "k = order_of s i" "e' = e" by auto
      then show ?thesis
      proof cases
        case old
        with t obtain j where j: "j < length (pq_calls s)" "order_of s j = k"
          "phase_of s j = Rejected e'" unfolding pq_thrown_def by blast
        have "j \<noteq> i" using j(3) h by auto
        then have "phase_of ?t j = Rejected e'" using j(3) by (simp add: phase_of_set_phase)
        then show ?thesis using j by auto
      next
        case new
        have "phase_of ?t i = Rejected e" using i by (simp add: phase_of_set_phase)
        then show ?thesis using new i by auto
      qed
    qed
    then have "pq_thrown ?t" unfolding pq_thrown_def by auto
    then show ?thesis using True Throws by (simp add: handler_settles_def Let_def)
  qed
qed

lemma thrown_step:
  assumes t: "pq_thrown s"
  shows "pq_thrown (pq_step s e)"
proof (cases e)
  case (PqPush x)
  then show ?thesis using thrown_push[OF t] by simp
next
  case PqWorkPoll
  have "pq_thrown (work_loop_pq (s\<lparr>pq_work_waits := pq_work_waits s - 1\<rparr>))"
    by (rule thrown_work_loop) (use t in simp)
  then show ?thesis using PqWorkPoll t by (simp add: work_poll_def)
next
  case (PqFinish i r)
  then show ?thesis using thrown_handler_settles[OF t] by simp
next
  case (PqTurnPoll i)
  show ?thesis
  proof (cases "phase_of s i")
    case (Turn r)
    then have "unrejected s i" by (simp add: unrejected_def)
    with t have "pq_thrown (callback_turn s i r)" by (rule thrown_turn)
    then show ?thesis using t Turn PqTurnPoll by (simp add: turn_poll_def)
  qed (use t PqTurnPoll in \<open>simp_all add: turn_poll_def\<close>)
next
  case (PqOutputDone i)
  show ?thesis
  proof (cases "i < length (pq_calls s) \<and> phase_of s i = Output")
    case True
    then have "unrejected s i" by (simp add: unrejected_def)
    with t have "pq_thrown (callback_finish s i)" by (rule thrown_finish)
    then show ?thesis using True PqOutputDone by (simp add: output_done_def)
  next
    case False
    then show ?thesis using t PqOutputDone by (auto simp: output_done_def)
  qed
next
  case PqClear
  then show ?thesis using t by (simp add: clear_pq_def)
next
  case PqClose
  then show ?thesis using t by (simp add: close_pq_def clear_pq_def)
qed

lemma thrown_run: "pq_thrown (pq_run es (ParalelQueue_new limit))"
proof (induction es rule: rev_induct)
  case Nil
  then show ?case by (simp add: pq_run_def pq_thrown_def ParalelQueue_new_def)
next
  case (snoc e es)
  then show ?case using thrown_step[of "pq_run es (ParalelQueue_new limit)" e]
    by (simp add: pq_run_snoc del: pq_step.simps)
qed

text \<open>
  Claim C5, as the code has it. Let the handler of order \<open>k\<close> have thrown \<open>e\<close>. Then after
  anything that follows, \<^verbatim>\<open>clear\<close> and \<^verbatim>\<open>close\<close> included, the activation of \<open>k\<close> is
  rejected with \<open>e\<close>, the output callback has not been called for \<open>k\<close>, and no result is
  recorded for \<open>k\<close>. In a run in which \<^verbatim>\<open>clear\<close> and \<^verbatim>\<open>close\<close> are not called,
  moreover, \<^verbatim>\<open>outp_order\<close> has not passed \<open>k\<close>, the output callback has been called for
  orders below \<open>k\<close> only, and the activation whose turn it is, holding its result, still
  calls the output callback at its next poll. And a handler that throws passes nothing
  to the output callback and changes no other activation.
\<close>

theorem C5_handler_throws:
  assumes run: "s = pq_run es (ParalelQueue_new limit)"
    and thr: "(k, Throws e) \<in> set (pq_finished s)"
  shows "(\<forall>fs.
            (\<exists>j < length (pq_calls (pq_run fs s)).
               order_of (pq_run fs s) j = k \<and> phase_of (pq_run fs s) j = Rejected e) \<and>
            k \<notin> fst ` set (pq_output (pq_run fs s)) \<and>
            (\<forall>r. (k, r) \<in> set (pq_finished (pq_run fs s)) \<longrightarrow> r = Throws e) \<and>
            (undisturbed (es @ fs) \<longrightarrow>
               phase_of (pq_run fs s) k = Rejected e \<and>
               pq_outp_order (pq_run fs s) \<le> k \<and>
               (\<forall>(j, r) \<in> set (pq_output (pq_run fs s)). j < k) \<and>
               (\<forall>i r. i < length (pq_calls (pq_run fs s)) \<and> phase_of (pq_run fs s) i = Turn r \<and>
                   pq_outp_order (pq_run fs s) = i \<longrightarrow>
                  pq_output (pq_step (pq_run fs s) (PqTurnPoll i))
                    = pq_output (pq_run fs s) @ [(i, r)]))) \<and>
         (\<forall>i e'. pq_output (pq_step s (PqFinish i (Throws e'))) = pq_output s \<and>
            (\<forall>j. j \<noteq> i \<longrightarrow> pq_calls (pq_step s (PqFinish i (Throws e'))) ! j = pq_calls s ! j))"
proof -
  have a: "(\<exists>j < length (pq_calls (pq_run fs s)).
               order_of (pq_run fs s) j = k \<and> phase_of (pq_run fs s) j = Rejected e) \<and>
            k \<notin> fst ` set (pq_output (pq_run fs s)) \<and>
            (\<forall>r. (k, r) \<in> set (pq_finished (pq_run fs s)) \<longrightarrow> r = Throws e) \<and>
            (undisturbed (es @ fs) \<longrightarrow>
               phase_of (pq_run fs s) k = Rejected e \<and>
               pq_outp_order (pq_run fs s) \<le> k \<and>
               (\<forall>(j, r) \<in> set (pq_output (pq_run fs s)). j < k) \<and>
               (\<forall>i r. i < length (pq_calls (pq_run fs s)) \<and> phase_of (pq_run fs s) i = Turn r \<and>
                   pq_outp_order (pq_run fs s) = i \<longrightarrow>
                  pq_output (pq_step (pq_run fs s) (PqTurnPoll i))
                    = pq_output (pq_run fs s) @ [(i, r)]))" for fs
  proof -
    let ?t = "pq_run fs s"
    have t: "?t = pq_run (es @ fs) (ParalelQueue_new limit)" by (simp add: run pq_run_append)
    have m: "(k, Throws e) \<in> set (pq_finished ?t)" using thr finished_run[of s fs] by blast
    have th: "pq_thrown ?t" unfolding t by (rule thrown_run)
    have on: "pq_once ?t" unfolding t by (rule once_run)
    have vl: "pq_vals (accepted (pq_returned ?t)) ?t" unfolding t by (rule vals_run)
    have a1: "\<exists>j < length (pq_calls ?t). order_of ?t j = k \<and> phase_of ?t j = Rejected e"
      using th m unfolding pq_thrown_def by blast
    have d: "distinct (map fst (pq_finished ?t))" using on by (simp add: pq_once_def)
    have a3: "r = Throws e" if "(k, r) \<in> set (pq_finished ?t)" for r
      using d that m by (rule eq_key_imp_eq_value)
    have a2: "k \<notin> fst ` set (pq_output ?t)"
    proof
      assume "k \<in> fst ` set (pq_output ?t)"
      then obtain r where "(k, r) \<in> set (pq_output ?t)" by force
      then obtain v where "(k, Returns v) \<in> set (pq_finished ?t)"
        using pq_valsD(4)[OF vl] by blast
      then show False using a3 by blast
    qed
    have a4: "phase_of ?t k = Rejected e \<and> pq_outp_order ?t \<le> k \<and>
        (\<forall>(j, r) \<in> set (pq_output ?t). j < k) \<and>
        (\<forall>i r. i < length (pq_calls ?t) \<and> phase_of ?t i = Turn r \<and> pq_outp_order ?t = i \<longrightarrow>
           pq_output (pq_step ?t (PqTurnPoll i)) = pq_output ?t @ [(i, r)])"
      if und: "undisturbed (es @ fs)"
    proof -
      have inv: "pq_inv ?t" unfolding t using und by (rule inv_run)
      then have sh: "pq_shape (accepted (pq_returned ?t)) ?t" and lg: "pq_logs ?t"
        by (simp_all add: pq_inv_def)
      note L = pq_logsD[OF lg]
      have l: "length (pq_calls ?t) = pq_work_order ?t" using sh by (rule shape_length)
      have kw: "k < pq_work_order ?t" and ph: "phase_of ?t k = Rejected e" using L(5)[OF m] by auto
      have ok: "phase_ok (pq_outp_order ?t) k (phase_of ?t k)" using sh kw by (simp add: pq_shape_def)
      then have le: "pq_outp_order ?t \<le> k" using ph by (simp add: phase_ok_def)
      have lt: "\<forall>(j, r) \<in> set (pq_output ?t). j < k"
      proof (clarify)
        fix j r assume "(j, r) \<in> set (pq_output ?t)"
        then have "j \<in> set (map fst (pq_output ?t))" by force
        then have "j < (if pq_outp_order ?t < pq_work_order ?t \<and>
                         phase_of ?t (pq_outp_order ?t) = Output
                       then Suc (pq_outp_order ?t) else pq_outp_order ?t)"
          unfolding L(1) by simp
        then show "j < k" using le ph by (cases "pq_outp_order ?t = k") (auto split: if_splits)
      qed
      have pr: "pq_output (pq_step ?t (PqTurnPoll i)) = pq_output ?t @ [(i, r)]"
        if "i < length (pq_calls ?t)" "phase_of ?t i = Turn r" "pq_outp_order ?t = i" for i r
        using that turn_output[OF sh, of i r] l by (simp add: turn_poll_def)
      show ?thesis using ph le lt pr by blast
    qed
    show ?thesis using a1 a2 a3 a4 by blast
  qed
  have b: "pq_output (pq_step s (PqFinish i (Throws e'))) = pq_output s \<and>
      (\<forall>j. j \<noteq> i \<longrightarrow> pq_calls (pq_step s (PqFinish i (Throws e'))) ! j = pq_calls s ! j)" for i e'
    by (simp add: handler_settles_def set_phase_def Let_def)
  show ?thesis using a b by blast
qed

lemma stuck_step: "pq_stuck s \<Longrightarrow> pq_stuck (pq_step s e)"
proof (cases e)
  case (PqPush x)
  assume "pq_stuck s"
  then show ?thesis using PqPush by (auto simp: pq_stuck_def push_pq_def Let_def)
next
  case PqWorkPoll
  assume st: "pq_stuck s"
  show ?thesis
  proof (cases "pq_open s")
    case True
    then show ?thesis using st PqWorkPoll by (simp add: pq_stuck_def work_poll_def)
  next
    case False
    then show ?thesis using st PqWorkPoll
      work_loop_stop[of "s\<lparr>pq_work_waits := pq_work_waits s - 1\<rparr>"]
      by (auto simp: pq_stuck_def work_poll_def)
  qed
next
  case (PqFinish i r)
  assume st: "pq_stuck s"
  then have "length (pq_calls s) = 1" "phase_of s 0 = Ended"
    by (auto simp: pq_stuck_def phase_of_def map_eq_Cons_conv)
  then show ?thesis using st PqFinish by (auto simp: handler_settles_def)
next
  case (PqTurnPoll i)
  assume st: "pq_stuck s"
  then have "length (pq_calls s) = 1" "phase_of s 0 = Ended"
    by (auto simp: pq_stuck_def phase_of_def map_eq_Cons_conv)
  then show ?thesis using st PqTurnPoll by (auto simp: turn_poll_def)
next
  case (PqOutputDone i)
  assume st: "pq_stuck s"
  then have "length (pq_calls s) = 1" "phase_of s 0 = Ended"
    by (auto simp: pq_stuck_def phase_of_def map_eq_Cons_conv)
  then show ?thesis using st PqOutputDone by (auto simp: output_done_def)
next
  case PqClear
  assume "pq_stuck s"
  then show ?thesis using PqClear by (simp add: pq_stuck_def clear_pq_def)
next
  case PqClose
  assume "pq_stuck s"
  then show ?thesis using PqClose by (simp add: pq_stuck_def close_pq_def clear_pq_def)
qed

lemma stuck_run: "pq_stuck s \<Longrightarrow> pq_stuck (pq_run fs s)"
proof (induction fs rule: rev_induct)
  case Nil
  then show ?case by (simp add: pq_run_def)
next
  case (snoc e fs)
  then show ?case by (simp add: pq_run_snoc stuck_step del: pq_step.simps)
qed

lemmas pq_eval = pq_run_def push_pq_def work_pq_def work_poll_def handler_settles_def
  turn_poll_def output_done_def callback_start_def callback_turn_def callback_finish_def
  set_phase_def clear_pq_def close_pq_def has_def order_of_def phase_of_def
  ParalelQueue_new_def Let_def work_loop_pq.simps

text \<open>The failing run: limit 1, one push, \<^verbatim>\<open>clear\<close> while its handler runs, the handler
  returns, a second push.\<close>

lemma blocked_run:
  "pq_stuck (pq_run [PqPush a, PqClear, PqFinish 0 (Returns v), PqPush b] (ParalelQueue_new 1)) \<and>
   pq_returned (pq_run [PqPush a, PqClear, PqFinish 0 (Returns v), PqPush b] (ParalelQueue_new 1))
     = [(a, True), (b, True)] \<and>
   pq_items (pq_run [PqPush a, PqClear, PqFinish 0 (Returns v), PqPush b] (ParalelQueue_new 1))
     = [(1, 1, b)]"
  by (simp add: pq_eval pq_stuck_def)

text \<open>
  Claim C7, where the code falls short of it. With limit 1: a push, \<^verbatim>\<open>clear\<close> while its
  handler runs, the handler returns, and a second push, which returns true and whose item
  is in \<^verbatim>\<open>items\<close>. The activation returned early, without \<^verbatim>\<open>curr_working--\<close>, so
  \<^verbatim>\<open>work\<close> waits for a free slot for ever: after anything that follows, the output
  callback has not been called and no second activation has been made.
\<close>

theorem C7_clear_blocks:
  "pq_returned (pq_run [PqPush a, PqClear, PqFinish 0 (Returns v), PqPush b] (ParalelQueue_new 1))
     = [(a, True), (b, True)] \<and>
   pq_items (pq_run [PqPush a, PqClear, PqFinish 0 (Returns v), PqPush b] (ParalelQueue_new 1))
     = [(1, 1, b)] \<and>
   pq_output (pq_run ([PqPush a, PqClear, PqFinish 0 (Returns v), PqPush b] @ fs)
     (ParalelQueue_new 1)) = [] \<and>
   length (pq_calls (pq_run ([PqPush a, PqClear, PqFinish 0 (Returns v), PqPush b] @ fs)
     (ParalelQueue_new 1))) = 1"
proof -
  let ?s = "pq_run [PqPush a, PqClear, PqFinish 0 (Returns v), PqPush b] (ParalelQueue_new 1)"
  have "pq_stuck (pq_run fs ?s)" using blocked_run[of a v b] stuck_run by blast
  then have "pq_output (pq_run fs ?s) = [] \<and> length (pq_calls (pq_run fs ?s)) = 1"
    by (auto simp: pq_stuck_def map_eq_Cons_conv)
  moreover have "pq_run ([PqPush a, PqClear, PqFinish 0 (Returns v), PqPush b] @ fs)
      (ParalelQueue_new 1) = pq_run fs ?s"
    by (rule pq_run_append)
  ultimately show ?thesis using blocked_run[of a v b] by simp
qed

text \<open>Two runs with window 2. In the first, item 1 finishes before item 0. In the second,
  \<^verbatim>\<open>clear\<close> is called while the handler of item 1 runs, and a third item follows.\<close>

theorem C1_witness:
  "undisturbed [PqPush ''a'', PqPush ''b'', PqFinish 1 (Returns (11::nat)), PqTurnPoll 1,
      PqFinish 0 (Returns 10), PqTurnPoll 1, PqOutputDone 0, PqTurnPoll 1] \<and>
   pq_finished (pq_run [PqPush ''a'', PqPush ''b'', PqFinish 1 (Returns (11::nat)), PqTurnPoll 1,
      PqFinish 0 (Returns 10), PqTurnPoll 1, PqOutputDone 0, PqTurnPoll 1] (ParalelQueue_new 2))
     = [(1, Returns 11), (0, Returns 10)] \<and>
   pq_output (pq_run [PqPush ''a'', PqPush ''b'', PqFinish 1 (Returns (11::nat)), PqTurnPoll 1,
      PqFinish 0 (Returns 10), PqTurnPoll 1, PqOutputDone 0, PqTurnPoll 1] (ParalelQueue_new 2))
     = [(0, Some 10), (1, Some 11)] \<and>
   map fst (pq_output (pq_run [PqPush ''a'', PqPush ''b'', PqFinish 1 (Returns (11::nat)),
      PqTurnPoll 1, PqFinish 0 (Returns 10), PqTurnPoll 1, PqOutputDone 0, PqTurnPoll 1]
      (ParalelQueue_new 2))) =
   [0 ..< length (pq_output (pq_run [PqPush ''a'', PqPush ''b'', PqFinish 1 (Returns (11::nat)),
      PqTurnPoll 1, PqFinish 0 (Returns 10), PqTurnPoll 1, PqOutputDone 0, PqTurnPoll 1]
      (ParalelQueue_new 2)))] \<and>
   pq_output (pq_run [PqPush ''a'', PqPush ''b'', PqFinish 0 (Returns (10::nat)), PqOutputDone 0,
      PqClear, PqFinish 1 (Returns 11), PqWorkPoll, PqPush ''c'', PqFinish 2 (Returns 12)]
      (ParalelQueue_new 2))
     = [(0, Some 10), (2, Some 12)] \<and>
   sorted_wrt (<) (map fst (pq_output (pq_run [PqPush ''a'', PqPush ''b'',
      PqFinish 0 (Returns (10::nat)), PqOutputDone 0, PqClear, PqFinish 1 (Returns 11), PqWorkPoll,
      PqPush ''c'', PqFinish 2 (Returns 12)] (ParalelQueue_new 2))))"
proof -
  let ?es = "[PqPush ''a'', PqPush ''b'', PqFinish 1 (Returns (11::nat)), PqTurnPoll 1,
      PqFinish 0 (Returns 10), PqTurnPoll 1, PqOutputDone 0, PqTurnPoll 1]"
  let ?fs = "[PqPush ''a'', PqPush ''b'', PqFinish 0 (Returns (10::nat)), PqOutputDone 0,
      PqClear, PqFinish 1 (Returns 11), PqWorkPoll, PqPush ''c'', PqFinish 2 (Returns 12)]"
  have u: "undisturbed ?es" by (simp add: undisturbed_def)
  have e: "pq_finished (pq_run ?es (ParalelQueue_new 2)) = [(1, Returns 11), (0, Returns 10)]"
    "pq_output (pq_run ?es (ParalelQueue_new 2)) = [(0, Some 10), (1, Some 11)]"
    "pq_output (pq_run ?fs (ParalelQueue_new 2)) = [(0, Some 10), (2, Some 12)]"
    by (simp_all add: pq_eval)
  note T = C1_ordered_output[OF refl, of ?es 2]
  note T6 = T[THEN conjunct2, THEN conjunct2, THEN conjunct2, THEN conjunct2, THEN conjunct2,
      THEN conjunct2]
  have g: "map fst (pq_output (pq_run ?es (ParalelQueue_new 2)))
      = [0 ..< length (pq_output (pq_run ?es (ParalelQueue_new 2)))]"
    by (rule T6[THEN mp, OF u, THEN conjunct1])
  have h: "sorted_wrt (<) (map fst (pq_output (pq_run ?fs (ParalelQueue_new 2))))"
    by (rule C1_ordered_output[OF refl, of ?fs 2, THEN conjunct1])
  show ?thesis using u e g h by (intro conjI)
qed

text \<open>After the throw, \<^verbatim>\<open>clear\<close> resets \<^verbatim>\<open>outp_order\<close>, and an item pushed later is
  passed to the output callback.\<close>

lemma throw_then_clear:
  "pq_output (pq_run [PqPush ''a'', PqPush ''b'', PqFinish 0 (Throws (Error ''x'')),
      PqFinish 1 (Returns (11::nat)), PqClear, PqTurnPoll 1, PqPush ''c'',
      PqFinish 2 (Returns 12)] (ParalelQueue_new 3)) = [(2, Some 12)] \<and>
   pq_outp_order (pq_run [PqPush ''a'', PqPush ''b'', PqFinish 0 (Throws (Error ''x'')),
      PqFinish 1 (Returns (11::nat)), PqClear, PqTurnPoll 1, PqPush ''c'',
      PqFinish 2 (Returns 12)] (ParalelQueue_new 3)) = 2"
  by (simp add: pq_eval)

theorem C5_witness:
  "(0, Throws (Error ''x'')) \<in> set (pq_finished
      (pq_run [PqPush ''a'', PqPush ''b'', PqFinish 0 (Throws (Error ''x''))]
        (ParalelQueue_new 2 :: (string, nat) ParalelQueue))) \<and>
   undisturbed ([PqPush ''a'', PqPush ''b'', PqFinish 0 (Throws (Error ''x''))] @
      [PqFinish 1 (Returns (11::nat)), PqTurnPoll 1, PqTurnPoll 0, PqWorkPoll]) \<and>
   phase_of (pq_run [PqFinish 1 (Returns (11::nat)), PqTurnPoll 1, PqTurnPoll 0, PqWorkPoll]
      (pq_run [PqPush ''a'', PqPush ''b'', PqFinish 0 (Throws (Error ''x''))]
        (ParalelQueue_new 2))) 0 = Rejected (Error ''x'') \<and>
   pq_outp_order (pq_run [PqFinish 1 (Returns (11::nat)), PqTurnPoll 1, PqTurnPoll 0, PqWorkPoll]
      (pq_run [PqPush ''a'', PqPush ''b'', PqFinish 0 (Throws (Error ''x''))]
        (ParalelQueue_new 2))) \<le> 0 \<and>
   0 \<notin> fst ` set (pq_output
      (pq_run [PqFinish 1 (Returns (11::nat)), PqClear, PqTurnPoll 1, PqPush ''c'',
         PqFinish 2 (Returns 12)]
      (pq_run [PqPush ''a'', PqPush ''b'', PqFinish 0 (Throws (Error ''x''))]
        (ParalelQueue_new 2))))"
proof -
  let ?es = "[PqPush ''a'', PqPush ''b'', PqFinish 0 (Throws (Error ''x''))]"
  let ?fs = "[PqFinish 1 (Returns (11::nat)), PqTurnPoll 1, PqTurnPoll 0, PqWorkPoll]"
  let ?gs = "[PqFinish 1 (Returns (11::nat)), PqClear, PqTurnPoll 1, PqPush ''c'',
         PqFinish 2 (Returns 12)]"
  let ?s = "pq_run ?es (ParalelQueue_new 2 :: (string, nat) ParalelQueue)"
  have u: "undisturbed (?es @ ?fs)" by (simp add: undisturbed_def)
  have t: "(0, Throws (Error ''x'')) \<in> set (pq_finished ?s)"
    by (simp add: pq_eval)
  note T = C5_handler_throws[OF refl t, THEN conjunct1]
  note F = T[THEN spec[where x = "?fs"]]
  note b = F[THEN conjunct2, THEN conjunct2, THEN conjunct2, THEN mp, OF u]
  have b1: "phase_of (pq_run ?fs ?s) 0 = Rejected (Error ''x'')" using b by (rule conjunct1)
  have b2: "pq_outp_order (pq_run ?fs ?s) \<le> 0" using b[THEN conjunct2] by (rule conjunct1)
  have b3: "0 \<notin> fst ` set (pq_output (pq_run ?gs ?s))"
    using T[THEN spec[where x = "?gs"], THEN conjunct2] by (rule conjunct1)
  show ?thesis using t u b1 b2 b3 by (intro conjI)
qed

text \<open>
  The claim as stated fails: with limit 2 and two pushes, the handler of the first throws
  and the handler of the second returns 11. Whatever is polled afterwards, nothing is
  passed to the output callback: the first activation is rejected, and the second waits
  for a turn that does not come.
\<close>

theorem C5_counterexample:
  "pq_output (pq_run [PqPush ''a'', PqPush ''b'', PqFinish 0 (Throws (Error ''x'')),
      PqFinish 1 (Returns (11::nat)), PqTurnPoll 1, PqTurnPoll 0, PqOutputDone 0, PqWorkPoll]
      (ParalelQueue_new 2)) = [] \<and>
   pq_calls (pq_run [PqPush ''a'', PqPush ''b'', PqFinish 0 (Throws (Error ''x'')),
      PqFinish 1 (Returns (11::nat)), PqTurnPoll 1, PqTurnPoll 0, PqOutputDone 0, PqWorkPoll]
      (ParalelQueue_new 2))
     = [(0, ''a'', Rejected (Error ''x'')), (1, ''b'', Turn (Some 11))]"
  by (simp add: pq_eval)

end
